theory Spec2Isabelle
  imports Complex_Main "HOL-Library.Word" "HOL-Library.Multiset" "HOL-Library.Log_Nat"
begin

unbundle bit_operations_syntax

section \<open>cpubench.c: data model\<close>

text \<open>
  The program is compiled for an LP64 target (\<^verbatim>\<open>gcc -O3 ... -fopenmp\<close> on Linux):
  \<^verbatim>\<open>unsigned long\<close> and \<^verbatim>\<open>unsigned long long\<close> are 64-bit words, \<^verbatim>\<open>int\<close> and
  \<^verbatim>\<open>unsigned int\<close> are 32-bit words. Signed \<^verbatim>\<open>int\<close> addition is modelled with
  two's-complement wrap-around (\<open>sint\<close> reads the value).
\<close>

type_synonym ulong = "64 word"
type_synonym cint = "32 word"
type_synonym cuint = "32 word"

text \<open>
  The file-scope variables that survive a call. \<open>x\<close>, \<open>y\<close>, \<open>pnum\<close>, \<open>i\<close>, \<open>ti\<close>,
  \<open>constant1..3\<close>, \<open>v1..v5\<close>, \<open>V1..V3\<close>, \<open>total\<close> and \<open>tmp\<close> are written before they
  are read in every call, so they are local values of the model. \<open>default_prec\<close> is
  not a variable of the program but the process-wide default precision of the GMP
  library: the value last passed to \<^verbatim>\<open>mpf_set_default_prec\<close>, which \<^verbatim>\<open>mpf_inits\<close>
  reads; it is \<open>None\<close> until the program sets it.
  \<open>bits\<close> is a \<^verbatim>\<open>double\<close>; it only ever holds a small non-negative integer.
\<close>

record globals =
  tpnums :: cint
  bits :: nat
  precision :: ulong
  exponent :: int
  default_prec :: "ulong option"

text \<open>Static initialisation: \<^verbatim>\<open>int tpnums = 0;\<close> and every other variable is zero.\<close>

definition init_globals :: globals where
  "init_globals =
     \<lparr>tpnums = 0, bits = 0, precision = 0, exponent = 0, default_prec = None\<rparr>"

section \<open>\<^verbatim>\<open>clc_log2\<close>\<close>

text \<open>
  \<^verbatim>\<open>__builtin_clz\<close>: the number of leading 0-bits of a 32-bit value, counted from the
  most significant bit. \<open>lz w n\<close> counts them among the bits \<open>n - 1, ..., 0\<close>. (GCC leaves
  the result for 0 undefined; \<open>clc_log2\<close> never passes 0.)
\<close>

fun lz :: "cuint \<Rightarrow> nat \<Rightarrow> nat" where
  "lz w 0 = 0"
| "lz w (Suc n) = (if bit w n then 0 else Suc (lz w n))"

definition builtin_clz :: "cuint \<Rightarrow> nat" where
  "builtin_clz w = lz w 32"

text \<open>\<^verbatim>\<open>return ((num <= 1) ? 0 : 32 - (__builtin_clz(num - 1)));\<close>\<close>

definition clc_log2 :: "cuint \<Rightarrow> cuint" where
  "clc_log2 num = (if num \<le> 1 then 0 else 32 - word_of_nat (builtin_clz (num - 1)))"

section \<open>\<^verbatim>\<open>clc_prime\<close>\<close>

text \<open>
  The inner loop \<^verbatim>\<open>for (y = 2; y < x; y++) if (x % y == 0) { pnum = 0; break; }\<close>
  entered with \<open>pnum = 1\<close>; the result is the value of \<open>pnum\<close> after the loop.
\<close>

function trial_loop :: "ulong \<Rightarrow> ulong \<Rightarrow> cint" where
  "trial_loop x y = (if y < x then (if x mod y = 0 then 0 else trial_loop x (y + 1)) else 1)"
  by pat_completeness auto
termination
proof (relation "measure (\<lambda>(x, y). unat x - unat y)")
  show "wf (measure (\<lambda>(x::ulong, y::ulong). unat x - unat y))" by simp
next
  fix x y :: ulong
  assume "y < x"
  then have lt: "unat y < unat x" by (simp add: word_less_nat_alt)
  have "unat x < 2 ^ 64" using unsigned_less [of x] by simp
  with lt have "unat y + unat (1::ulong) < 2 ^ LENGTH(64)" by simp
  then have "unat (y + 1) = unat y + unat (1::ulong)" by (simp only: unat_add_lem)
  with lt show "((x, y + 1), (x, y)) \<in> measure (\<lambda>(x, y). unat x - unat y)" by simp
qed

declare trial_loop.simps [simp del]

text \<open>One iteration of the outer loop: \<^verbatim>\<open>pnum = 1; ...; tpnums = tpnums + pnum;\<close>\<close>

definition prime_iter :: "cint \<Rightarrow> ulong \<Rightarrow> cint" where
  "prime_iter t x = (let pnum = trial_loop x 2 in t + pnum)"

text \<open>
  The outer loop \<^verbatim>\<open>for (x = 2; x <= max; x++)\<close> as C states it, run by one thread on
  \<open>tpnums\<close> itself (the program built without OpenMP). \<open>x\<close> is a 64-bit counter and
  \<open>x++\<close> wraps: when \<open>max\<close> is \<open>2 ^ 64 - 1\<close> the condition cannot fail and the loop has
  no result, which is the value \<open>None\<close>.
\<close>

partial_function (option) prime_loop :: "ulong \<Rightarrow> ulong \<Rightarrow> cint \<Rightarrow> cint option" where
  "prime_loop mx x t = (if x \<le> mx then prime_loop mx (x + 1) (prime_iter t x) else Some t)"

definition clc_prime_seq :: "ulong \<Rightarrow> globals \<Rightarrow> (cint \<times> globals) option" where
  "clc_prime_seq mx s =
     (case prime_loop mx 2 (tpnums s) of
        None \<Rightarrow> None
      | Some t \<Rightarrow> Some (t, s\<lparr>tpnums := t\<rparr>))"

text \<open>
  Under \<^verbatim>\<open>#pragma omp parallel for shared (max) private (x, y, pnum) reduction (+:tpnums)\<close>
  the loop is an OpenMP canonical loop: its iterations are fixed on entry, from the
  bounds, and handed out to the threads of the team. The program is built with
  \<^verbatim>\<open>gcc -fopenmp\<close> (the file's header), which turns the condition \<open>x <= max\<close> into
  \<open>x < max + 1\<close> with the end \<open>max + 1\<close> computed in the counter's type. The
  iterations are the \<open>x\<close> with \<open>2 \<le> x < max + 1\<close>: the candidates \<open>2, ..., max\<close> for
  every \<open>max\<close> below \<open>2 ^ 64 - 1\<close>; for \<open>max = 2 ^ 64 - 1\<close> the end wraps to 0 and
  the loop runs no iteration.
\<close>

definition candidates :: "ulong \<Rightarrow> ulong list" where
  "candidates mx = map word_of_nat [2..<unat (mx + 1)]"

text \<open>
  A thread runs its iterations on a private copy of \<open>tpnums\<close> that starts at 0, the
  identity of the reduction operator \<open>+\<close>.
\<close>

definition worker :: "ulong list \<Rightarrow> cint" where
  "worker xs = foldl prime_iter 0 xs"

text \<open>
  A schedule is the way the OpenMP runtime hands the iterations to the threads of
  the team: from the list of iterations it gives, per thread, the iterations that
  thread runs, in its order. It is valid for a loop when there is at least one thread
  and every iteration is run exactly once.
\<close>

definition valid_schedule :: "(ulong list \<Rightarrow> ulong list list) \<Rightarrow> ulong list \<Rightarrow> bool" where
  "valid_schedule schedule xs =
     (schedule xs \<noteq> [] \<and> mset (concat (schedule xs)) = mset xs)"

text \<open>
  The static schedule for \<open>n\<close> threads: contiguous chunks of \<open>ceil(length / n)\<close>
  iterations, one per thread. With one thread it is the sequential loop.
\<close>

definition static_schedule :: "nat \<Rightarrow> ulong list \<Rightarrow> ulong list list" where
  "static_schedule n xs =
     (let c = (length xs + n - 1) div n
      in map (\<lambda>t. take c (drop (t * c) xs)) [0..<n])"

text \<open>
  \<open>clc_prime\<close> under a schedule: at the end of the loop the original \<open>tpnums\<close> is
  combined with the private copies; the function returns the global \<open>tpnums\<close>.
  Every call returns; the result is given as \<open>Some\<close> so that it can be compared with
  \<open>clc_prime_seq\<close>. (Timing and printing are not modelled.)
\<close>

definition clc_prime ::
  "(ulong list \<Rightarrow> ulong list list) \<Rightarrow> ulong \<Rightarrow> globals \<Rightarrow> (cint \<times> globals) option"
where
  "clc_prime schedule mx s =
     (let parts = schedule (candidates mx);
          s' = s\<lparr>tpnums := foldl (+) (tpnums s) (map worker parts)\<rparr>
      in Some (tpnums s', s'))"

section \<open>\<^verbatim>\<open>clc_pi\<close>\<close>

text \<open>
  The \<^verbatim>\<open>double\<close> arithmetic of \<^verbatim>\<open>precision = (dgts * bits) + 1\<close> only meets
  non-negative integers, so a double is modelled by the integer it holds. \<open>rnd53\<close>
  rounds an integer to the nearest double (53-bit significand, ties to even), which is
  what the conversion from \<^verbatim>\<open>unsigned long\<close> and every arithmetic operation do.
  \<open>bit_length v\<close> is the number of binary digits of \<open>v\<close>.
\<close>

fun bit_length :: "nat \<Rightarrow> nat" where
  "bit_length n = (if n = 0 then 0 else Suc (bit_length (n div 2)))"

declare bit_length.simps [simp del]

definition rnd53 :: "nat \<Rightarrow> nat" where
  "rnd53 v =
     (if v < 2 ^ 53 then v
      else let e = bit_length v - 53; q = v div 2 ^ e; r = v mod 2 ^ e; h = 2 ^ (e - 1)
           in if r < h \<or> (r = h \<and> even q) then q * 2 ^ e else (q + 1) * 2 ^ e)"

definition ulong_to_double :: "ulong \<Rightarrow> nat" where
  "ulong_to_double w = rnd53 (unat w)"

definition dmul :: "nat \<Rightarrow> nat \<Rightarrow> nat" where
  "dmul a b = rnd53 (a * b)"

definition dadd :: "nat \<Rightarrow> nat \<Rightarrow> nat" where
  "dadd a b = rnd53 (a + b)"

text \<open>Conversion to \<^verbatim>\<open>unsigned long\<close>: undefined when the value does not fit.\<close>

definition double_to_ulong :: "nat \<Rightarrow> ulong option" where
  "double_to_ulong d = (if d < 2 ^ 64 then Some (word_of_nat d) else None)"

text \<open>
  Lines 126 to 134: the iteration count, \<open>bits\<close>, \<open>precision\<close> and the call of
  \<^verbatim>\<open>mpf_set_default_prec\<close>. \<open>None\<close> is undefined behaviour in the conversion.
\<close>

definition clc_pi_setup :: "ulong \<Rightarrow> globals \<Rightarrow> (ulong \<times> globals) option" where
  "clc_pi_setup dgts s =
     (let iters = dgts div 15 + 1;
          b = unat (clc_log2 10)
      in case double_to_ulong (dadd (dmul (ulong_to_double dgts) b) 1) of
           None \<Rightarrow> None
         | Some p \<Rightarrow> Some (iters, s\<lparr>bits := b, precision := p, default_prec := Some p\<rparr>))"

text \<open>
  The GMP floating-point functions the program calls. GMP is not part of the
  repository, so its operations are a parameter. Every \<^verbatim>\<open>mpf_t\<close> of the program is
  initialised after \<^verbatim>\<open>mpf_set_default_prec(precision)\<close>, so each operation is given
  that precision. The integer functions (\<^verbatim>\<open>mpz_*\<close>) are exact and are modelled on \<open>int\<close>.
\<close>

record 'f mpf_lib =
  mpf_set_ui :: "ulong \<Rightarrow> ulong \<Rightarrow> 'f"
  mpf_sqrt_ui :: "ulong \<Rightarrow> ulong \<Rightarrow> 'f"
  mpf_mul_ui :: "ulong \<Rightarrow> 'f \<Rightarrow> ulong \<Rightarrow> 'f"
  mpf_set_z :: "ulong \<Rightarrow> int \<Rightarrow> 'f"
  mpf_div :: "ulong \<Rightarrow> 'f \<Rightarrow> 'f \<Rightarrow> 'f"
  mpf_add :: "ulong \<Rightarrow> 'f \<Rightarrow> 'f \<Rightarrow> 'f"
  mpf_ui_div :: "ulong \<Rightarrow> ulong \<Rightarrow> 'f \<Rightarrow> 'f"
  mpf_mul :: "ulong \<Rightarrow> 'f \<Rightarrow> 'f \<Rightarrow> 'f"

definition constant1 :: ulong where "constant1 = 545140134"
definition constant2 :: ulong where "constant2 = 13591409"
definition constant3 :: ulong where "constant3 = 640320"

text \<open>
  The integer part of one iteration of the loop: the values of \<open>v1\<close> and \<open>v3\<close> that
  are handed to \<^verbatim>\<open>mpf_set_z\<close>. \<open>6 * i\<close> and \<open>i * 3\<close> are \<^verbatim>\<open>unsigned long\<close> products.
\<close>

definition series_term :: "ulong \<Rightarrow> int \<times> int" where
  "series_term i =
     (let ti = i * 3;
          v1 = fact (unat (6 * i));
          v2 = uint constant1;
          v2 = v2 * uint i;
          v2 = v2 + uint constant2;
          v3 = fact (unat ti);
          v4 = fact (unat i);
          v4 = v4 ^ 3;
          v5 = uint constant3 ^ unat ti;
          v5 = (if 1 AND ti = 1 then - v5 else v5);
          v1 = v1 * v2;
          v3 = v3 * v4;
          v3 = v3 * v5
      in (v1, v3))"

text \<open>The loop \<^verbatim>\<open>for (i = 0x0; i < iters; i++)\<close>, from a given \<open>i\<close> and \<open>total\<close>.\<close>

function pi_loop :: "'f mpf_lib \<Rightarrow> ulong \<Rightarrow> ulong \<Rightarrow> ulong \<Rightarrow> 'f \<Rightarrow> 'f" where
  "pi_loop L p iters i acc =
     (if i < iters then
        (let (v1, v3) = series_term i;
             V1 = mpf_set_z L p v1;
             V2 = mpf_set_z L p v3;
             V3 = mpf_div L p V1 V2
         in pi_loop L p iters (i + 1) (mpf_add L p acc V3))
      else acc)"
  by pat_completeness auto
termination
proof (relation "measure (\<lambda>(L, p, iters, i, acc). unat iters - unat i)")
  show "wf (measure (\<lambda>(L::'f mpf_lib, p::ulong, iters::ulong, i::ulong, acc::'f).
    unat iters - unat i))" by simp
next
  fix L :: "'f mpf_lib" and p iters i :: ulong and acc :: 'f
    and x :: "int \<times> int" and v1 v3 :: int and V1 V2 V3 :: 'f
  assume "i < iters"
  then have lt: "unat i < unat iters" by (simp add: word_less_nat_alt)
  have "unat iters < 2 ^ 64" using unsigned_less [of iters] by simp
  with lt have "unat i + unat (1::ulong) < 2 ^ LENGTH(64)" by simp
  then have "unat (i + 1) = unat i + unat (1::ulong)" by (simp only: unat_add_lem)
  with lt show "((L, p, iters, i + 1, mpf_add L p acc V3), (L, p, iters, i, acc))
    \<in> measure (\<lambda>(L, p, iters, i, acc). unat iters - unat i)" by simp
qed

declare pi_loop.simps [simp del]

text \<open>
  Lines 137 to 179: the value of \<open>total\<close> that is converted to digits, for the
  precision and the iteration count of the setup.
\<close>

definition pi_total :: "'f mpf_lib \<Rightarrow> ulong \<Rightarrow> ulong \<Rightarrow> 'f" where
  "pi_total L p iters =
     (let acc = mpf_set_ui L p 0;
          tmp = mpf_sqrt_ui L p 10005;
          tmp = mpf_mul_ui L p tmp 426880;
          acc = pi_loop L p iters 0 acc;
          acc = mpf_ui_div L p 1 acc;
          acc = mpf_mul L p acc tmp
      in acc)"

text \<open>
  \<open>clc_pi\<close>. \<open>get_str x n\<close> stands for \<^verbatim>\<open>mpf_get_str(NULL, &exponent, 10, n, x)\<close>: it
  gives the digit string and the exponent.
\<close>

definition clc_pi ::
  "'f mpf_lib \<Rightarrow> ('f \<Rightarrow> ulong \<Rightarrow> string \<times> int) \<Rightarrow> ulong \<Rightarrow> globals \<Rightarrow> (string \<times> globals) option"
where
  "clc_pi L get_str dgts s =
     (case clc_pi_setup dgts s of
        None \<Rightarrow> None
      | Some (iters, s1) \<Rightarrow>
          (let acc = pi_total L (precision s1) iters;
               (oput, e) = get_str acc dgts
           in Some (oput, s1\<lparr>exponent := e\<rparr>)))"

section \<open>\<^verbatim>\<open>main\<close>\<close>

text \<open>
  What \<open>main\<close> decides to do with its command line. \<open>argv\<close> includes the program name,
  so \<open>argc\<close> is its length. \<^verbatim>\<open>strtol\<close> (base 10) belongs to the C library and is a
  parameter; its \<^verbatim>\<open>long\<close> result is stored in the \<^verbatim>\<open>unsigned long\<close> \<open>cpvalue\<close>, which
  keeps the bits. \<^verbatim>\<open>strcmp(a, b) == 0\<close> is equality of strings.
\<close>

datatype action =
    Exit_usage
  | Exit_digit_error
  | Bench_pi ulong bool bool
  | Bench_primes ulong
  | No_bench

definition threading_of :: "string \<Rightarrow> int" where
  "threading_of a2 =
     (let threading = (if a2 = ''--singlethreaded'' then 1 else 0 :: int);
          threading = (if a2 = ''--multithreaded'' then 0 else 1 :: int)
      in threading)"

definition main_action :: "(string \<Rightarrow> ulong) \<Rightarrow> string list \<Rightarrow> action" where
  "main_action strtol argv =
     (if length argv = 4 \<and>
         (argv ! 3 = ''--printdigits'' \<or> argv ! 3 = ''--nodigits'' \<or> argv ! 3 = ''--dumpdigits'')
      then
        (let cpvalue = strtol (argv ! 1);
             threading = threading_of (argv ! 2);
             pd = (argv ! 3 = ''--printdigits'');
             dd = (argv ! 3 = ''--dumpdigits'')
         in if cpvalue < 1 then Exit_digit_error
            else if threading = 1 then Bench_pi cpvalue pd dd
            else if threading = 0 then Bench_primes cpvalue
            else No_bench)
      else Exit_usage)"

text \<open>
  For concrete command lines: \<^verbatim>\<open>strtol\<close> in base 10 as the C standard describes it.
  White space is skipped, a sign is read, then the longest run of decimal digits; the
  value is clamped to the range of \<^verbatim>\<open>long\<close>; without digits the result is 0.
\<close>

definition is_space :: "char \<Rightarrow> bool" where
  "is_space c = (of_char c \<in> {32, 9, 10, 11, 12, 13 :: nat})"

definition is_digit :: "char \<Rightarrow> bool" where
  "is_digit c = (48 \<le> (of_char c :: nat) \<and> (of_char c :: nat) \<le> 57)"

fun digits_value :: "nat \<Rightarrow> string \<Rightarrow> nat" where
  "digits_value a [] = a"
| "digits_value a (c # cs) =
     (if is_digit c then digits_value (a * 10 + (of_char c - 48)) cs else a)"

definition strtol10 :: "string \<Rightarrow> ulong" where
  "strtol10 s =
     (let t = dropWhile is_space s
      in case t of
           [] \<Rightarrow> 0
         | c # r \<Rightarrow>
             if c = CHR ''-'' then - word_of_nat (min (digits_value 0 r) (2 ^ 63))
             else if c = CHR ''+'' then word_of_nat (min (digits_value 0 r) (2 ^ 63 - 1))
             else word_of_nat (min (digits_value 0 t) (2 ^ 63 - 1)))"

section \<open>Definitions that follow the specification\<close>

text \<open>The second of the two assignments to \<open>threading\<close>, alone.\<close>

definition threading_second :: "string \<Rightarrow> int" where
  "threading_second a2 = (if a2 = ''--multithreaded'' then 0 else 1)"


text \<open>
  Trial division as the specification words it: \<open>x\<close> counts iff no \<open>y\<close> in \<open>[2, x)\<close>
  divides it evenly; \<open>trial_count mx\<close> is the number of such \<open>x\<close> in \<open>[2, mx]\<close>.
\<close>

definition no_divisor :: "nat \<Rightarrow> bool" where
  "no_divisor x = (\<forall>y\<in>set [2..<x]. x mod y \<noteq> 0)"

definition trial_count :: "nat \<Rightarrow> nat" where
  "trial_count mx = length (filter no_divisor [2..<Suc mx])"

text \<open>
  Prime numbers: greater than 1, with no divisor but 1 and the number itself; and
  the number of primes below, respectively up to, a bound.
\<close>

definition is_prime :: "nat \<Rightarrow> bool" where
  "is_prime p = (1 < p \<and> (\<forall>d\<in>set [1..<Suc p]. d dvd p \<longrightarrow> d = 1 \<or> d = p))"

definition primes_below :: "nat \<Rightarrow> nat" where
  "primes_below n = length (filter is_prime [0..<n])"

definition primes_upto :: "nat \<Rightarrow> nat" where
  "primes_upto n = length (filter is_prime [0..<Suc n])"

text \<open>
  The series term of the specification, for iteration \<open>i\<close>: the numerator, the
  denominator and its sign.
\<close>

definition chud_sign :: "nat \<Rightarrow> int" where
  "chud_sign i = (if odd (3 * i) then - 1 else 1)"

definition chud_num :: "nat \<Rightarrow> int" where
  "chud_num i = fact (6 * i) * (545140134 * int i + 13591409)"

definition chud_den :: "nat \<Rightarrow> int" where
  "chud_den i = fact (3 * i) * (fact i) ^ 3 * 640320 ^ (3 * i) * chud_sign i"

text \<open>Adding the ratio of term \<open>k\<close> to the accumulator, with the library's operations.\<close>

definition add_term :: "'f mpf_lib \<Rightarrow> ulong \<Rightarrow> 'f \<Rightarrow> nat \<Rightarrow> 'f" where
  "add_term L p a k =
     mpf_add L p a (mpf_div L p (mpf_set_z L p (chud_num k)) (mpf_set_z L p (chud_den k)))"

text \<open>
  The operations carried out on the real numbers, without rounding: the reading of
  the library under which the specification states its formulas.
\<close>

definition exact_lib :: "real mpf_lib" where
  "exact_lib =
     \<lparr>mpf_set_ui = (\<lambda>p n. real (unat n)),
      mpf_sqrt_ui = (\<lambda>p n. sqrt (real (unat n))),
      mpf_mul_ui = (\<lambda>p a n. a * real (unat n)),
      mpf_set_z = (\<lambda>p z. real_of_int z),
      mpf_div = (\<lambda>p a b. a / b),
      mpf_add = (\<lambda>p a b. a + b),
      mpf_ui_div = (\<lambda>p n a. real (unat n) / a),
      mpf_mul = (\<lambda>p a b. a * b)\<rparr>"

text \<open>The iteration count and the working precision as the specification derives them.\<close>

definition spec_iters :: "nat \<Rightarrow> nat" where
  "spec_iters N = N div 15 + 1"

definition spec_precision :: "nat \<Rightarrow> nat" where
  "spec_precision N = nat \<lceil>real N * log 2 10\<rceil> + 1"

text \<open>
  The decimal expansion of a real number \<open>x\<close> with \<open>1 \<le> x < 10\<close> (the decimal
  point after the first digit, exponent 1): its first \<open>n\<close> digits, and its \<open>n\<close> digits
  rounded to nearest, each read as a whole number.
\<close>

definition first_digits :: "real \<Rightarrow> nat \<Rightarrow> int" where
  "first_digits x n = \<lfloor>x * 10 ^ (n - 1)\<rfloor>"

definition rounded_digits :: "real \<Rightarrow> nat \<Rightarrow> int" where
  "rounded_digits x n = round (x * 10 ^ (n - 1))"

section \<open>The prime counter\<close>

subsection \<open>The inner loop is trial division\<close>

lemma unat_inc: "y < x \<Longrightarrow> unat (y + 1) = Suc (unat y)" for x y :: ulong
proof -
  assume "y < x"
  then have lt: "unat y < unat x" by (simp add: word_less_nat_alt)
  have "unat x < 2 ^ 64" using unsigned_less [of x] by simp
  with lt have "unat y + unat (1::ulong) < 2 ^ LENGTH(64)" by simp
  then have "unat (y + 1) = unat y + unat (1::ulong)" by (simp only: unat_add_lem)
  then show ?thesis by simp
qed

lemma trial_loop_eq:
  "0 < unat y \<Longrightarrow>
   trial_loop x y = (if \<exists>z. unat y \<le> z \<and> z < unat x \<and> unat x mod z = 0 then 0 else 1)"
proof (induction x y rule: trial_loop.induct)
  case (1 x y)
  show ?case
  proof (cases "y < x")
    case False
    then have "\<not> unat y < unat x" by (simp add: word_less_nat_alt)
    then have "\<not> (\<exists>z. unat y \<le> z \<and> z < unat x \<and> unat x mod z = 0)" by auto
    with False show ?thesis by (simp add: trial_loop.simps [of x y])
  next
    case True
    then have lt: "unat y < unat x" by (simp add: word_less_nat_alt)
    have dv: "(x mod y = 0) = (unat x mod unat y = 0)"
      by (metis unat_mod unat_eq_zero)
    show ?thesis
    proof (cases "x mod y = 0")
      case z: True
      with dv lt have "\<exists>z. unat y \<le> z \<and> z < unat x \<and> unat x mod z = 0" by auto
      with True z show ?thesis by (simp add: trial_loop.simps [of x y])
    next
      case nz: False
      have inc: "unat (y + 1) = Suc (unat y)" using True by (rule unat_inc)
      have ih: "trial_loop x (y + 1) =
        (if \<exists>z. unat (y + 1) \<le> z \<and> z < unat x \<and> unat x mod z = 0 then 0 else 1)"
        using "1.IH" [OF True nz] inc by simp
      have "(\<exists>z. Suc (unat y) \<le> z \<and> z < unat x \<and> unat x mod z = 0) =
            (\<exists>z. unat y \<le> z \<and> z < unat x \<and> unat x mod z = 0)"
        using nz dv by (metis Suc_leD Suc_le_eq le_neq_implies_less)
      with ih inc True nz show ?thesis by (simp add: trial_loop.simps [of x y])
    qed
  qed
qed

lemma trial_loop_of_nat:
  assumes "n < 2 ^ 64"
  shows "trial_loop (word_of_nat n) 2 = (if no_divisor n then 1 else 0)"
proof -
  have u: "unat (word_of_nat n :: ulong) = n" using assms by (simp add: unat_of_nat)
  have "(\<exists>z. 2 \<le> z \<and> z < n \<and> n mod z = 0) = (\<not> no_divisor n)"
    by (auto simp: no_divisor_def Bex_def)
  then show ?thesis using trial_loop_eq [of 2 "word_of_nat n"] u by simp
qed

subsection \<open>The reduction\<close>

lemma worker_sum: "foldl prime_iter a xs = a + sum_list (map (\<lambda>x. trial_loop x 2) xs)"
  by (induction xs arbitrary: a) (simp_all add: prime_iter_def add.assoc)

lemma combine_sum:
  "foldl (+) a (map worker sched) = a + sum_list (map (\<lambda>x. trial_loop x 2) (concat sched))"
  by (induction sched arbitrary: a) (simp_all add: worker_def worker_sum add.assoc)

lemma max_bound_iff: "(mx + 1 = 0) = (mx = - 1)" for mx :: ulong
  by (simp only: eq_neg_iff_add_eq_0)

lemma unat_inc_le: "x \<le> mx \<Longrightarrow> mx + 1 \<noteq> 0 \<Longrightarrow> unat (x + 1) = Suc (unat x)"
  for x mx :: ulong
proof -
  assume a: "x \<le> mx" and b: "mx + 1 \<noteq> 0"
  have "unat mx + 1 \<noteq> 2 ^ 64"
  proof
    assume "unat mx + 1 = 2 ^ 64"
    then have "unat (mx + 1) = 0" by (simp add: unat_word_ariths)
    then have "mx + 1 = 0" by (simp add: unat_eq_zero)
    with b show False by simp
  qed
  moreover have "unat mx < 2 ^ 64" using unsigned_less [of mx] by simp
  moreover have "unat x \<le> unat mx" using a by (simp add: word_le_nat_alt)
  ultimately have "unat x + unat (1 :: ulong) < 2 ^ LENGTH(64)" by simp
  then have "unat (x + 1) = unat x + unat (1 :: ulong)" by (simp only: unat_add_lem)
  then show ?thesis by simp
qed

lemma candidates_below_max:
  assumes "mx + 1 \<noteq> 0"
  shows "candidates mx = map word_of_nat [2..<Suc (unat mx)]"
proof -
  have "unat (mx + 1) = Suc (unat mx)" using order_refl assms by (rule unat_inc_le)
  then show ?thesis by (simp only: candidates_def)
qed

lemma candidates_at_max: "candidates (- 1) = []"
  by (simp add: candidates_def)

lemma sum_candidates:
  assumes "mx + 1 \<noteq> 0"
  shows "sum_list (map (\<lambda>x. trial_loop x 2) (candidates mx)) =
    word_of_nat (trial_count (unat mx))"
proof -
  have b: "unat mx < 2 ^ 64" using unsigned_less [of mx] by simp
  have "m \<le> Suc (unat mx) \<Longrightarrow> sum_list (map (\<lambda>x. trial_loop x 2) (map word_of_nat [2..<m])) =
    (word_of_nat (length (filter no_divisor [2..<m])) :: cint)" for m
  proof (induction m)
    case 0 show ?case by simp
  next
    case (Suc m)
    then have "m < 2 ^ 64" using b by simp
    then have t: "trial_loop (word_of_nat m) 2 = (if no_divisor m then 1 else 0)"
      by (rule trial_loop_of_nat)
    show ?case
    proof (cases "2 \<le> m")
      case True
      then have "[2..<Suc m] = [2..<m] @ [m]" by simp
      then show ?thesis using Suc t by simp
    next
      case False then show ?thesis by simp
    qed
  qed
  from this [of "Suc (unat mx)"] show ?thesis
    by (simp add: candidates_below_max [OF assms] trial_count_def)
qed

lemma schedule_sum:
  assumes "valid_schedule schedule xs"
  shows "sum_list (map (\<lambda>x. trial_loop x 2) (concat (schedule xs))) =
    sum_list (map (\<lambda>x. trial_loop x 2) xs)"
proof -
  have "sum_list (map (\<lambda>x. trial_loop x 2) (concat (schedule xs))) =
        sum_mset (image_mset (\<lambda>x. trial_loop x 2) (mset (concat (schedule xs))))"
    by (metis mset_map sum_mset_sum_list)
  also have "\<dots> = sum_list (map (\<lambda>x. trial_loop x 2) xs)"
    using assms by (metis valid_schedule_def mset_map sum_mset_sum_list)
  finally show ?thesis .
qed

lemma clc_prime_sum:
  assumes "valid_schedule schedule (candidates mx)"
  shows "clc_prime schedule mx s =
    Some (tpnums s + sum_list (map (\<lambda>x. trial_loop x 2) (candidates mx)),
      s\<lparr>tpnums := tpnums s + sum_list (map (\<lambda>x. trial_loop x 2) (candidates mx))\<rparr>)"
  by (simp add: clc_prime_def combine_sum schedule_sum [OF assms])

lemma clc_prime_sched:
  assumes "valid_schedule schedule (candidates mx)" and "mx + 1 \<noteq> 0"
  shows "clc_prime schedule mx s =
    Some (tpnums s + word_of_nat (trial_count (unat mx)),
      s\<lparr>tpnums := tpnums s + word_of_nat (trial_count (unat mx))\<rparr>)"
  by (simp only: clc_prime_sum [OF assms(1)] sum_candidates [OF assms(2)])

lemma clc_prime_zero_trip:
  assumes "valid_schedule schedule (candidates (- 1))"
  shows "clc_prime schedule (- 1) s = Some (tpnums s, s)"
  by (simp add: clc_prime_sum [OF assms] candidates_at_max)

lemma static_chunks_concat:
  "concat (map (\<lambda>t. take c (drop (t * c) xs)) [0..<n]) = take (n * c) xs"
proof (induction n)
  case 0
  show ?case by simp
next
  case (Suc n)
  have "take (n * c + c) xs = take (n * c) xs @ take c (drop (n * c) xs)"
    by (rule take_add)
  with Suc show ?case by (simp add: add.commute)
qed

lemma static_schedule_valid:
  assumes "1 \<le> n"
  shows "valid_schedule (static_schedule n) xs"
proof -
  let ?c = "(length xs + n - 1) div n"
  have "n * ?c + (length xs + n - 1) mod n = length xs + n - 1"
    by (rule mult_div_mod_eq)
  moreover have "(length xs + n - 1) mod n < n" using assms by simp
  ultimately have "length xs \<le> n * ?c" by arith
  then have "take (n * ?c) xs = xs" by simp
  then have "concat (static_schedule n xs) = xs"
    by (simp add: static_schedule_def Let_def static_chunks_concat)
  moreover have "static_schedule n xs \<noteq> []"
    using assms by (simp add: static_schedule_def Let_def)
  ultimately show ?thesis by (simp add: valid_schedule_def)
qed

lemma one_thread_schedule: "static_schedule 1 xs = [xs]"
  by (simp add: static_schedule_def)

lemma one_thread_valid: "valid_schedule (static_schedule 1) xs"
  by (rule static_schedule_valid) simp

subsection \<open>The loop run by one thread\<close>

lemma prime_loop_Some_bound:
  assumes "prime_loop mx x t = Some r"
  shows "mx \<noteq> - 1"
proof -
  have "(case ((mx, x), t) of (a, c) \<Rightarrow> (case a of (a, b) \<Rightarrow> \<lambda>c r. a \<noteq> - 1) c) r"
  proof (rule prime_loop.raw_induct [where P = "\<lambda>a b c r. a \<noteq> - 1"])
    fix f :: "ulong \<Rightarrow> ulong \<Rightarrow> cint \<Rightarrow> cint option" and mx' x' :: ulong and t' r' :: cint
    assume ih: "\<And>a b c r. f a b c = Some r \<Longrightarrow> a \<noteq> - 1"
      and body: "(if x' \<le> mx' then f mx' (x' + 1) (prime_iter t' x') else Some t') = Some r'"
    show "mx' \<noteq> - 1"
    proof (cases "x' \<le> mx'")
      case True
      with body have "f mx' (x' + 1) (prime_iter t' x') = Some r'" by simp
      then show ?thesis by (rule ih)
    next
      case False
      then show ?thesis by auto
    qed
  next
    show "(case ((mx, x), t) of (a, c) \<Rightarrow> (case a of (a, b) \<Rightarrow> prime_loop a b) c) = Some r"
      using assms by simp
  qed
  then show ?thesis by simp
qed

lemma prime_loop_never_ends: "prime_loop (- 1) x t = None"
proof (cases "prime_loop (- 1) x t")
  case None
  then show ?thesis .
next
  case (Some r)
  from prime_loop_Some_bound [OF this] show ?thesis by simp
qed

lemma prime_loop_eq:
  assumes "mx + 1 \<noteq> 0"
  shows "prime_loop mx x t = Some (foldl prime_iter t (map word_of_nat [unat x..<Suc (unat mx)]))"
proof (induction "Suc (unat mx) - unat x" arbitrary: x t)
  case 0
  then have "\<not> x \<le> mx" by (simp add: word_le_nat_alt)
  moreover from 0 have "[unat x..<Suc (unat mx)] = []" by simp
  ultimately show ?case by (simp add: prime_loop.simps [of mx x])
next
  case (Suc n)
  then have le: "x \<le> mx" by (simp add: word_le_nat_alt)
  have inc: "unat (x + 1) = Suc (unat x)" using le assms by (rule unat_inc_le)
  with Suc have "n = Suc (unat mx) - unat (x + 1)" by simp
  from Suc.hyps(1) [OF this]
  have ih: "prime_loop mx (x + 1) (prime_iter t x) =
    Some (foldl prime_iter (prime_iter t x) (map word_of_nat [unat (x + 1)..<Suc (unat mx)]))" .
  from le have "unat x \<le> unat mx" by (simp add: word_le_nat_alt)
  then have up: "[unat x..<Suc (unat mx)] = unat x # [Suc (unat x)..<Suc (unat mx)]"
    by (simp add: upt_conv_Cons)
  show ?case using le ih by (simp add: prime_loop.simps [of mx x] up inc del: upt_Suc)
qed

lemma clc_prime_seq_one_thread:
  assumes "mx + 1 \<noteq> 0"
  shows "clc_prime_seq mx s = clc_prime (static_schedule 1) mx s"
proof -
  have "prime_loop mx 2 (tpnums s) =
    Some (tpnums s + sum_list (map (\<lambda>x. trial_loop x 2) (candidates mx)))"
    using prime_loop_eq [OF assms, of 2 "tpnums s"]
    by (simp add: candidates_below_max [OF assms] worker_sum)
  then have a: "prime_loop mx 2 (tpnums s) =
    Some (tpnums s + word_of_nat (trial_count (unat mx)))"
    by (simp only: sum_candidates [OF assms])
  have b: "clc_prime (static_schedule 1) mx s =
    Some (tpnums s + word_of_nat (trial_count (unat mx)),
      s\<lparr>tpnums := tpnums s + word_of_nat (trial_count (unat mx))\<rparr>)"
    by (rule clc_prime_sched [OF one_thread_valid assms])
  show ?thesis unfolding clc_prime_seq_def a b by simp
qed

lemma clc_prime_seq_at_max: "clc_prime_seq (- 1) s = None"
  by (simp add: clc_prime_seq_def prime_loop_never_ends)

subsection \<open>Trial division finds the primes\<close>

lemma is_prime_iff: "is_prime p = (1 < p \<and> (\<forall>d. d dvd p \<longrightarrow> d = 1 \<or> d = p))"
proof -
  have "d dvd p \<Longrightarrow> 1 < p \<Longrightarrow> d \<in> set [1..<Suc p]" for d
    using dvd_imp_le [of d p] by (cases "d = 0") auto
  then show ?thesis unfolding is_prime_def by blast
qed

lemma no_divisor_is_prime: "2 \<le> n \<Longrightarrow> no_divisor n = is_prime n"
proof -
  assume n: "2 \<le> n"
  have "no_divisor n = (\<forall>d. d dvd n \<longrightarrow> d = 1 \<or> d = n)"
  proof
    assume nd: "no_divisor n"
    show "\<forall>d. d dvd n \<longrightarrow> d = 1 \<or> d = n"
    proof (intro allI impI)
      fix d assume d: "d dvd n"
      then have "d \<le> n" "0 < d" using n dvd_imp_le [of d n] by (cases "d = 0"; auto)+
      show "d = 1 \<or> d = n"
      proof (rule ccontr)
        assume "\<not> (d = 1 \<or> d = n)"
        with \<open>d \<le> n\<close> \<open>0 < d\<close> have "d \<in> set [2..<n]" by auto
        with nd have "n mod d \<noteq> 0" by (simp add: no_divisor_def del: set_upt)
        with d show False by (simp add: dvd_eq_mod_eq_0)
      qed
    qed
  next
    assume a: "\<forall>d. d dvd n \<longrightarrow> d = 1 \<or> d = n"
    show "no_divisor n" unfolding no_divisor_def
    proof
      fix y assume "y \<in> set [2..<n]"
      then have "y \<noteq> 1" "y \<noteq> n" by auto
      with a have "\<not> y dvd n" by blast
      then show "n mod y \<noteq> 0" by (simp add: dvd_eq_mod_eq_0)
    qed
  qed
  with n show ?thesis by (simp add: is_prime_iff)
qed

lemma trial_count_primes_upto: "trial_count n = primes_upto n"
proof -
  have np: "\<not> is_prime 0" "\<not> is_prime 1" "\<not> is_prime (Suc 0)" by (simp_all add: is_prime_def)
  have f: "filter no_divisor [2..<Suc n] = filter is_prime [2..<Suc n]"
    by (rule filter_cong) (auto simp: no_divisor_is_prime)
  have "filter is_prime [0..<m] = filter is_prime [2..<m]" for m
    by (induction m) (auto simp: np numeral_2_eq_2 not_less_eq_eq less_Suc_eq_le le_Suc_eq)
  with f show ?thesis by (simp only: trial_count_def primes_upto_def)
qed

subsection \<open>The count fits an \<^verbatim>\<open>int\<close> for every bound below \<open>2 ^ 32\<close>\<close>

lemma trial_count_Suc:
  "trial_count (Suc n) = trial_count n + (if 1 \<le> n \<and> no_divisor (Suc n) then 1 else 0)"
  by (auto simp: trial_count_def)

lemma even_not_no_divisor: "even m \<Longrightarrow> 2 < m \<Longrightarrow> \<not> no_divisor m"
  by (auto simp: no_divisor_def intro!: bexI [of _ 2])

lemma trial_count_half: "9 \<le> n \<Longrightarrow> trial_count n \<le> (n - 1) div 2"
proof (induction n rule: nat_induct_at_least)
  case base
  have "trial_count 9 = 4" by code_simp
  then show ?case by simp
next
  case (Suc n)
  show ?case
  proof (cases "even (Suc n)")
    case True
    then have "\<not> no_divisor (Suc n)" using Suc.hyps by (intro even_not_no_divisor) auto
    then have "trial_count (Suc n) = trial_count n" by (simp add: trial_count_Suc)
    with Suc.IH show ?thesis by simp
  next
    case False
    then have "even n" by simp
    then have "(n - 1) div 2 + 1 = n div 2" using Suc.hyps by (elim evenE) auto
    moreover have "trial_count (Suc n) \<le> trial_count n + 1" by (simp add: trial_count_Suc)
    ultimately show ?thesis using Suc.IH by simp
  qed
qed

lemma trial_count_le: "trial_count n \<le> n"
  unfolding trial_count_def by (rule order_trans [OF length_filter_le]) auto

lemma trial_count_int_range: "n < 2 ^ 32 \<Longrightarrow> trial_count n < 2 ^ 31"
proof (cases "9 \<le> n")
  case True
  assume "n < 2 ^ 32"
  then have "(n - 1) div 2 < 2 ^ 31" by simp
  with trial_count_half [OF True] show ?thesis by simp
next
  case False
  then have "trial_count n \<le> 8" using trial_count_le [of n] by simp
  then show ?thesis by simp
qed

lemma sint_count: "k < 2 ^ 31 \<Longrightarrow> sint (word_of_nat k :: cint) = int k"
proof -
  assume "k < 2 ^ 31"
  then have "int k < 2 ^ 31" by (metis of_nat_less_iff of_nat_numeral of_nat_power)
  then have "signed_take_bit 31 (int k) = int k"
    by (simp add: signed_take_bit_int_eq_self_iff)
  then show ?thesis by (simp add: signed_of_nat)
qed

lemma small_bound: "unat mx < 2 ^ 32 \<Longrightarrow> mx + 1 \<noteq> 0" for mx :: ulong
proof
  assume a: "unat mx < 2 ^ 32" and "mx + 1 = 0"
  then have "mx = - 1" by (simp only: max_bound_iff)
  then have "unat mx = 2 ^ 64 - 1" by (simp add: unsigned_minus_1_eq_mask mask_eq_exp_minus_1)
  with a show False by simp
qed

lemma clc_prime_first_call:
  assumes "valid_schedule schedule (candidates mx)" and "mx + 1 \<noteq> 0"
  shows "map_option fst (clc_prime schedule mx init_globals) =
    Some (word_of_nat (trial_count (unat mx)))"
  by (simp add: clc_prime_sched [OF assms] init_globals_def)

lemma clc_prime_first_call_sint:
  assumes "valid_schedule schedule (candidates mx)" and "mx + 1 \<noteq> 0"
    and "trial_count (unat mx) < 2 ^ 31"
  shows "map_option (sint \<circ> fst) (clc_prime schedule mx init_globals) =
    Some (int (trial_count (unat mx)))"
  using sint_count [OF assms(3)]
  by (simp add: clc_prime_sched [OF assms(1,2)] init_globals_def)

lemma clc_prime_example:
  assumes "valid_schedule schedule (candidates mx)"
    and "unat mx = n" and "n < 2 ^ 32" and "trial_count n = k"
  shows "map_option (sint \<circ> fst) (clc_prime schedule mx init_globals) = Some (int k)"
  using clc_prime_first_call_sint [OF assms(1) small_bound] trial_count_int_range [of n]
    assms(2-4)
  by simp

lemma trial_count_examples:
  "trial_count 0 = 0" "trial_count 1 = 0" "trial_count (Suc 0) = 0"
  "trial_count 2 = 1" "trial_count 7 = 4"
  "trial_count 10 = 4" "trial_count 20 = 8" "trial_count 30 = 10"
  by code_simp+

lemma trial_count_pos:
  assumes "2 \<le> n"
  shows "0 < trial_count n"
proof -
  have "no_divisor 2" by (simp add: no_divisor_def)
  moreover have "2 \<in> set [2..<Suc n]" using assms by (simp del: upt_Suc)
  ultimately have "2 \<in> set (filter no_divisor [2..<Suc n])"
    by (simp only: set_filter mem_Collect_eq simp_thms)
  then have "0 < length (filter no_divisor [2..<Suc n])" by (rule length_pos_if_in_set)
  then show ?thesis by (simp only: trial_count_def)
qed

lemma max_bound_numeral: "(18446744073709551615 :: ulong) = - 1"
  by simp

subsection \<open>Claims about \<open>clc_prime\<close>\<close>

text \<open>
  C2. For the bound \<open>2 ^ 64 - 1\<close> the end of the range, \<open>max + 1\<close>, wraps to 0: the
  loop runs no iteration and \<open>clc_prime\<close>, called in a fresh process, returns 0. But 2
  is a candidate in \<open>[2, max]\<close> that no \<open>y\<close> in \<open>[2, x)\<close> divides, so the number of such
  candidates is not 0.
\<close>

theorem clc_prime_zero_at_max:
  "map_option (sint \<circ> fst) (clc_prime (static_schedule 1) 18446744073709551615 init_globals) =
     Some 0 \<and>
   map_option (sint \<circ> fst) (clc_prime (static_schedule 1) 18446744073709551615 init_globals) \<noteq>
     Some (int (trial_count (unat (18446744073709551615 :: ulong)))) \<and>
   candidates 18446744073709551615 = [] \<and>
   0 < trial_count (unat (18446744073709551615 :: ulong))"
proof -
  have r: "clc_prime (static_schedule 1) (- 1) init_globals = Some (tpnums init_globals, init_globals)"
    by (rule clc_prime_zero_trip [OF one_thread_valid])
  have z: "map_option (sint \<circ> fst)
      (clc_prime (static_schedule 1) 18446744073709551615 init_globals) = Some 0"
    unfolding max_bound_numeral r by (simp add: init_globals_def)
  have "(2 :: nat) \<le> unat (18446744073709551615 :: ulong)" by simp
  then have p: "0 < trial_count (unat (18446744073709551615 :: ulong))"
    by (rule trial_count_pos)
  have c: "candidates 18446744073709551615 = []"
    unfolding max_bound_numeral by (rule candidates_at_max)
  have n: "map_option (sint \<circ> fst)
      (clc_prime (static_schedule 1) 18446744073709551615 init_globals) \<noteq>
     Some (int (trial_count (unat (18446744073709551615 :: ulong))))"
    unfolding z using p by simp
  from z n c p show ?thesis by (simp only: simp_thms)
qed

text \<open>
  C2, amended. Called in a fresh process with a bound below \<open>2 ^ 64 - 1\<close>, under
  whatever schedule the runtime picks, \<open>clc_prime\<close> returns the number of candidates
  \<open>x\<close> in \<open>[2, max]\<close> that no \<open>y\<close> in \<open>[2, x)\<close> divides, as an \<^verbatim>\<open>int\<close>: the 32-bit value
  of that count, which is the count itself whenever the count is below \<open>2 ^ 31\<close>; and
  it is for every \<open>max\<close> below \<open>2 ^ 32\<close> (the values the usage text admits). In
  particular the results for 0, 1, 10, 20 and 30 are 0, 0, 4, 8 and 10.
\<close>

theorem clc_prime_trial_division:
  assumes "valid_schedule schedule (candidates mx)"
  shows "(mx + 1 \<noteq> 0 \<longrightarrow>
       map_option fst (clc_prime schedule mx init_globals) =
         Some (word_of_nat (trial_count (unat mx)))) \<and>
    (mx + 1 \<noteq> 0 \<and> trial_count (unat mx) < 2 ^ 31 \<longrightarrow>
       map_option (sint \<circ> fst) (clc_prime schedule mx init_globals) =
         Some (int (trial_count (unat mx)))) \<and>
    (unat mx < 2 ^ 32 \<longrightarrow> mx + 1 \<noteq> 0 \<and> trial_count (unat mx) < 2 ^ 31) \<and>
    (mx = 0 \<longrightarrow> map_option (sint \<circ> fst) (clc_prime schedule mx init_globals) = Some 0) \<and>
    (mx = 1 \<longrightarrow> map_option (sint \<circ> fst) (clc_prime schedule mx init_globals) = Some 0) \<and>
    (mx = 10 \<longrightarrow> map_option (sint \<circ> fst) (clc_prime schedule mx init_globals) = Some 4) \<and>
    (mx = 20 \<longrightarrow> map_option (sint \<circ> fst) (clc_prime schedule mx init_globals) = Some 8) \<and>
    (mx = 30 \<longrightarrow> map_option (sint \<circ> fst) (clc_prime schedule mx init_globals) = Some 10)"
proof -
  note ex = clc_prime_example [OF assms]
  have "mx = 0 \<longrightarrow> map_option (sint \<circ> fst) (clc_prime schedule mx init_globals) = Some 0"
    using ex [of 0 0] by (auto simp: trial_count_examples)
  moreover
  have "mx = 1 \<longrightarrow> map_option (sint \<circ> fst) (clc_prime schedule mx init_globals) = Some 0"
    using ex [of 1 0] by (auto simp: trial_count_examples)
  moreover
  have "mx = 10 \<longrightarrow> map_option (sint \<circ> fst) (clc_prime schedule mx init_globals) = Some 4"
    using ex [of 10 4] by (auto simp: trial_count_examples)
  moreover
  have "mx = 20 \<longrightarrow> map_option (sint \<circ> fst) (clc_prime schedule mx init_globals) = Some 8"
    using ex [of 20 8] by (auto simp: trial_count_examples)
  moreover
  have "mx = 30 \<longrightarrow> map_option (sint \<circ> fst) (clc_prime schedule mx init_globals) = Some 10"
    using ex [of 30 10] by (auto simp: trial_count_examples)
  moreover have "mx + 1 \<noteq> 0 \<and> trial_count (unat mx) < 2 ^ 31 \<longrightarrow>
       map_option (sint \<circ> fst) (clc_prime schedule mx init_globals) =
         Some (int (trial_count (unat mx)))"
    using clc_prime_first_call_sint [OF assms] by blast
  moreover have "unat mx < 2 ^ 32 \<longrightarrow> mx + 1 \<noteq> 0 \<and> trial_count (unat mx) < 2 ^ 31"
    using trial_count_int_range [of "unat mx"] small_bound [of mx] by blast
  moreover have "mx + 1 \<noteq> 0 \<longrightarrow>
       map_option fst (clc_prime schedule mx init_globals) =
         Some (word_of_nat (trial_count (unat mx)))"
    using clc_prime_first_call [OF assms] by blast
  ultimately show ?thesis by blast
qed

theorem clc_prime_trial_division_witness:
  "valid_schedule (static_schedule 2) (candidates 10) \<and>
   static_schedule 2 (candidates 10) = [[2, 3, 4, 5, 6], [7, 8, 9, 10]] \<and>
   map_option (sint \<circ> fst) (clc_prime (static_schedule 2) 10 init_globals) = Some 4 \<and>
   trial_count (unat (10 :: ulong)) = 4 \<and> unat (10 :: ulong) < 2 ^ 32 \<and>
   (10 :: ulong) + 1 \<noteq> 0 \<and> no_divisor 7 \<and> \<not> no_divisor 9"
proof -
  have v: "valid_schedule (static_schedule 2) (candidates 10)"
    by (rule static_schedule_valid) simp
  have p: "static_schedule 2 (candidates 10) = [[2, 3, 4, 5, 6], [7, 8, 9, 10]]"
    by (simp add: static_schedule_def candidates_def upt_rec)
  have c: "trial_count (unat (10 :: ulong)) = 4" by (simp add: trial_count_examples)
  have d: "no_divisor 7 \<and> \<not> no_divisor 9" by code_simp
  from clc_prime_trial_division [OF v]
  have "(10 :: ulong) = 10 \<longrightarrow>
    map_option (sint \<circ> fst) (clc_prime (static_schedule 2) 10 init_globals) = Some 4"
    by blast
  then have "map_option (sint \<circ> fst) (clc_prime (static_schedule 2) 10 init_globals) = Some 4"
    by simp
  with v p c d show ?thesis by simp
qed

text \<open>
  C3. For a fixed \<open>max\<close> and a fixed state, any two schedules (any numbers of
  threads, any partition of the iterations, in any order) give the same result and
  the same final state; in particular the static schedule for \<open>N\<close> threads, for any
  \<open>N \<ge> 1\<close>, gives what one thread gives, and (for every \<open>max\<close> below \<open>2 ^ 64 - 1\<close>)
  what the loop gives when it is run as plain C.
\<close>

theorem clc_prime_schedule_independent:
  "(valid_schedule schedule1 (candidates mx) \<and> valid_schedule schedule2 (candidates mx) \<longrightarrow>
      clc_prime schedule1 mx s = clc_prime schedule2 mx s) \<and>
   (1 \<le> N \<longrightarrow> clc_prime (static_schedule N) mx s = clc_prime (static_schedule 1) mx s) \<and>
   (1 \<le> N \<and> mx + 1 \<noteq> 0 \<longrightarrow> clc_prime (static_schedule N) mx s = clc_prime_seq mx s) \<and>
   static_schedule 1 (candidates mx) = [candidates mx]"
proof -
  have eq: "clc_prime schedule1 mx s = clc_prime schedule2 mx s"
    if "valid_schedule schedule1 (candidates mx)" and "valid_schedule schedule2 (candidates mx)"
    for schedule1 schedule2
    by (simp only: clc_prime_sum [OF that(1)] clc_prime_sum [OF that(2)])
  have one: "clc_prime (static_schedule N) mx s = clc_prime (static_schedule 1) mx s" if "1 \<le> N"
    by (rule eq [OF static_schedule_valid [OF that] one_thread_valid])
  have "clc_prime (static_schedule N) mx s = clc_prime_seq mx s" if "1 \<le> N" and "mx + 1 \<noteq> 0"
    by (simp only: one [OF that(1)] clc_prime_seq_one_thread [OF that(2)])
  moreover have "static_schedule 1 (candidates mx) = [candidates mx]"
    by (rule one_thread_schedule)
  ultimately show ?thesis using eq one by blast
qed

theorem clc_prime_schedule_independent_witness:
  "valid_schedule (\<lambda>xs. [[2, 4, 6, 8, 10], [3, 5, 7, 9]]) (candidates 10) \<and>
   valid_schedule (static_schedule 3) (candidates 10) \<and>
   static_schedule 3 (candidates 10) = [[2, 3, 4], [5, 6, 7], [8, 9, 10]] \<and>
   clc_prime (\<lambda>xs. [[2, 4, 6, 8, 10], [3, 5, 7, 9]]) 10 init_globals =
     clc_prime (static_schedule 3) 10 init_globals \<and>
   (1 :: nat) \<le> 3 \<and> (10 :: ulong) + 1 \<noteq> 0 \<and>
   clc_prime (static_schedule 3) 10 init_globals = clc_prime (static_schedule 1) 10 init_globals \<and>
   clc_prime (static_schedule 3) 10 init_globals = clc_prime_seq 10 init_globals"
proof -
  have v1: "valid_schedule (\<lambda>xs. [[2, 4, 6, 8, 10], [3, 5, 7, 9]]) (candidates 10)"
    by (simp add: valid_schedule_def candidates_def upt_rec)
  have v2: "valid_schedule (static_schedule 3) (candidates 10)"
    by (rule static_schedule_valid) simp
  have p: "static_schedule 3 (candidates 10) = [[2, 3, 4], [5, 6, 7], [8, 9, 10]]"
    by (simp add: static_schedule_def candidates_def upt_rec)
  have n: "(1 :: nat) \<le> 3" by simp
  have m: "(10 :: ulong) + 1 \<noteq> 0" by simp
  note c = clc_prime_schedule_independent
    [of "\<lambda>xs. [[2, 4, 6, 8, 10], [3, 5, 7, 9]]" 10 "static_schedule 3" init_globals 3]
  from c v1 v2 have "clc_prime (\<lambda>xs. [[2, 4, 6, 8, 10], [3, 5, 7, 9]]) 10 init_globals =
     clc_prime (static_schedule 3) 10 init_globals" by blast
  moreover from c n have "clc_prime (static_schedule 3) 10 init_globals =
     clc_prime (static_schedule 1) 10 init_globals" by blast
  moreover from c n m have "clc_prime (static_schedule 3) 10 init_globals =
     clc_prime_seq 10 init_globals" by blast
  ultimately show ?thesis using v1 v2 p n m by blast
qed

text \<open>
  C7. \<open>tpnums\<close> is a file-scope accumulator that \<open>clc_prime\<close> adds to and never
  resets: a call with bound 10 from the initial state returns 4, and a second call
  with the same bound, entered with the state the first call left, returns 8.
\<close>

theorem clc_prime_second_call:
  "clc_prime (static_schedule 1) 10 init_globals = Some (4, init_globals\<lparr>tpnums := 4\<rparr>) \<and>
   clc_prime (static_schedule 1) 10 (init_globals\<lparr>tpnums := 4\<rparr>) =
     Some (8, init_globals\<lparr>tpnums := 8\<rparr>)"
proof -
  have n: "(10 :: ulong) + 1 \<noteq> 0" by simp
  have c: "clc_prime (static_schedule 1) 10 s =
    Some (tpnums s + word_of_nat (trial_count (unat (10 :: ulong))),
      s\<lparr>tpnums := tpnums s + word_of_nat (trial_count (unat (10 :: ulong)))\<rparr>)" for s
    by (rule clc_prime_sched [OF one_thread_valid n])
  show ?thesis unfolding c by (simp add: init_globals_def trial_count_examples)
qed

text \<open>
  C8. The loop runs while \<open>x <= max\<close>, so the bound itself is a candidate: for the
  bound 2 the result is 1, while no prime is below 2.
\<close>

theorem clc_prime_counts_bound_itself:
  "map_option (sint \<circ> fst) (clc_prime (static_schedule 1) 2 init_globals) \<noteq>
     Some (int (primes_below 2)) \<and>
   map_option (sint \<circ> fst) (clc_prime (static_schedule 1) 2 init_globals) = Some 1 \<and>
   primes_below 2 = 0"
  by (simp add: clc_prime_def init_globals_def candidates_def
      static_schedule_def worker_def prime_iter_def trial_loop.simps primes_below_def
      is_prime_def upt_rec)

text \<open>
  C8, amended. Called in a fresh process with a bound \<open>N\<close> below \<open>2 ^ 64 - 1\<close>,
  \<open>clc_prime\<close> counts the primes up to and including the bound: the returned \<^verbatim>\<open>int\<close> is
  the number of primes \<open>p \<le> N\<close> as a 32-bit value, which is that number itself
  whenever it is below \<open>2 ^ 31\<close>, as it is for every \<open>N\<close> below \<open>2 ^ 32\<close>; for the
  bounds 2 and 7 the results are 1 and 4.
\<close>

theorem clc_prime_primes_upto:
  assumes "valid_schedule schedule (candidates mx)"
  shows "(mx + 1 \<noteq> 0 \<longrightarrow>
       map_option fst (clc_prime schedule mx init_globals) =
         Some (word_of_nat (primes_upto (unat mx)))) \<and>
    (mx + 1 \<noteq> 0 \<and> primes_upto (unat mx) < 2 ^ 31 \<longrightarrow>
       map_option (sint \<circ> fst) (clc_prime schedule mx init_globals) =
         Some (int (primes_upto (unat mx)))) \<and>
    (unat mx < 2 ^ 32 \<longrightarrow> mx + 1 \<noteq> 0 \<and> primes_upto (unat mx) < 2 ^ 31) \<and>
    (mx = 2 \<longrightarrow> map_option (sint \<circ> fst) (clc_prime schedule mx init_globals) = Some 1) \<and>
    (mx = 7 \<longrightarrow> map_option (sint \<circ> fst) (clc_prime schedule mx init_globals) = Some 4)"
proof -
  note ex = clc_prime_example [OF assms]
  have "mx = 2 \<longrightarrow> map_option (sint \<circ> fst) (clc_prime schedule mx init_globals) = Some 1"
    using ex [of 2 1] by (auto simp: trial_count_examples)
  moreover
  have "mx = 7 \<longrightarrow> map_option (sint \<circ> fst) (clc_prime schedule mx init_globals) = Some 4"
    using ex [of 7 4] by (auto simp: trial_count_examples)
  moreover have "mx + 1 \<noteq> 0 \<and> primes_upto (unat mx) < 2 ^ 31 \<longrightarrow>
       map_option (sint \<circ> fst) (clc_prime schedule mx init_globals) =
         Some (int (primes_upto (unat mx)))"
    using clc_prime_first_call_sint [OF assms]
    by (simp only: trial_count_primes_upto) blast
  moreover have "unat mx < 2 ^ 32 \<longrightarrow> mx + 1 \<noteq> 0 \<and> primes_upto (unat mx) < 2 ^ 31"
    using trial_count_int_range [of "unat mx"] small_bound [of mx]
    by (simp only: trial_count_primes_upto) blast
  moreover have "mx + 1 \<noteq> 0 \<longrightarrow>
       map_option fst (clc_prime schedule mx init_globals) =
         Some (word_of_nat (primes_upto (unat mx)))"
    using clc_prime_first_call [OF assms]
    by (simp only: trial_count_primes_upto) blast
  ultimately show ?thesis by blast
qed

theorem clc_prime_primes_upto_witness:
  "valid_schedule (static_schedule 2) (candidates 7) \<and>
   static_schedule 2 (candidates 7) = [[2, 3, 4], [5, 6, 7]] \<and>
   map_option (sint \<circ> fst) (clc_prime (static_schedule 2) 7 init_globals) = Some 4 \<and>
   primes_upto (unat (7 :: ulong)) = 4 \<and> unat (7 :: ulong) < 2 ^ 32 \<and>
   (7 :: ulong) + 1 \<noteq> 0 \<and> is_prime 7 \<and> \<not> is_prime 6"
proof -
  have v: "valid_schedule (static_schedule 2) (candidates 7)"
    by (rule static_schedule_valid) simp
  have s: "static_schedule 2 (candidates 7) = [[2, 3, 4], [5, 6, 7]]"
    by (simp add: static_schedule_def candidates_def upt_rec)
  have p: "primes_upto (unat (7 :: ulong)) = 4"
    by (simp add: trial_count_primes_upto [symmetric] trial_count_examples)
  have q: "is_prime 7 \<and> \<not> is_prime 6" by code_simp
  from clc_prime_primes_upto [OF v]
  have "(7 :: ulong) = 7 \<longrightarrow>
    map_option (sint \<circ> fst) (clc_prime (static_schedule 2) 7 init_globals) = Some 4"
    by blast
  then have "map_option (sint \<circ> fst) (clc_prime (static_schedule 2) 7 init_globals) = Some 4"
    by simp
  with v s p q show ?thesis by simp
qed

section \<open>The driver\<close>

lemma main_action_modes:
  assumes "length argv = 4"
    and "argv ! 3 = ''--printdigits'' \<or> argv ! 3 = ''--nodigits'' \<or> argv ! 3 = ''--dumpdigits''"
  shows "main_action strtol argv =
    (if strtol (argv ! 1) < 1 then Exit_digit_error
     else if argv ! 2 = ''--multithreaded'' then Bench_primes (strtol (argv ! 1))
     else Bench_pi (strtol (argv ! 1)) (argv ! 3 = ''--printdigits'')
       (argv ! 3 = ''--dumpdigits''))"
  using assms by (simp add: main_action_def threading_of_def Let_def)

lemma main_action_digit_error:
  "(main_action strtol argv = Exit_digit_error) =
   (length argv = 4 \<and>
    (argv ! 3 = ''--printdigits'' \<or> argv ! 3 = ''--nodigits'' \<or> argv ! 3 = ''--dumpdigits'') \<and>
    strtol (argv ! 1) = 0)"
  by (auto simp: main_action_def threading_of_def Let_def word_less_1)

text \<open>
  C9. The two assignments to \<open>threading\<close> have the effect of the second alone, for
  every \<open>argv[2]\<close>: the comparison with \<open>--singlethreaded\<close> never matters. So on an
  accepted command line with a value of at least 1, every \<open>argv[2]\<close> other than
  \<open>--multithreaded\<close> runs the single-threaded pi benchmark, and \<open>--multithreaded\<close>
  runs the prime benchmark.
\<close>

theorem threading_second_assignment_alone:
  "threading_of a2 = threading_second a2 \<and>
   (length argv = 4 \<and>
    (argv ! 3 = ''--printdigits'' \<or> argv ! 3 = ''--nodigits'' \<or> argv ! 3 = ''--dumpdigits'') \<and>
    \<not> strtol (argv ! 1) < 1 \<longrightarrow>
      main_action strtol argv =
        (if argv ! 2 = ''--multithreaded'' then Bench_primes (strtol (argv ! 1))
         else Bench_pi (strtol (argv ! 1)) (argv ! 3 = ''--printdigits'')
           (argv ! 3 = ''--dumpdigits'')))"
  by (simp add: main_action_modes threading_of_def threading_second_def)

theorem threading_second_assignment_alone_witness:
  "length [''cpubench'', ''1000'', ''--anything'', ''--printdigits''] = 4 \<and>
   \<not> strtol10 ([''cpubench'', ''1000'', ''--anything'', ''--printdigits''] ! 1) < 1 \<and>
   main_action strtol10 [''cpubench'', ''1000'', ''--anything'', ''--printdigits''] =
     Bench_pi 1000 True False \<and>
   threading_of ''--singlethreaded'' = 1 \<and> threading_of ''--anything'' = 1 \<and>
   threading_of ''--multithreaded'' = 0"
proof -
  have v: "strtol10 ''1000'' = 1000"
    by (simp add: strtol10_def is_space_def is_digit_def)
  have t: "threading_second ''--singlethreaded'' = 1" "threading_second ''--anything'' = 1"
    "threading_second ''--multithreaded'' = 0"
    by (simp_all add: threading_second_def)
  note c = threading_second_assignment_alone
  from c [of "''--singlethreaded''"] c [of "''--anything''"] c [of "''--multithreaded''"] t
  have "threading_of ''--singlethreaded'' = 1 \<and> threading_of ''--anything'' = 1 \<and>
    threading_of ''--multithreaded'' = 0" by metis
  moreover from c [of "''--anything''" "[''cpubench'', ''1000'', ''--anything'', ''--printdigits'']"
      strtol10] v
  have "main_action strtol10 [''cpubench'', ''1000'', ''--anything'', ''--printdigits''] =
     Bench_pi 1000 True False" by simp
  ultimately show ?thesis using v by simp
qed

text \<open>
  C6. The driver stores the \<^verbatim>\<open>long\<close> that \<^verbatim>\<open>strtol\<close> returns in an \<^verbatim>\<open>unsigned long\<close>
  and tests \<open>cpvalue < 1\<close> (``Check if digits isnt zero or below''): the value 0 is
  refused, but a negative value has become a large unsigned one and passes, so the
  benchmark runs on it. Neither \<open>clc_pi\<close> nor \<open>clc_prime\<close> checks its argument; for
  the value \<open>-1\<close> the prime loop is entered with the bound \<open>2 ^ 64 - 1\<close>: the program
  as built with OpenMP runs no iteration and reports 0 primes (and the loop run as
  plain C would have no result).
\<close>

theorem main_accepts_negative_value:
  "main_action strtol10 [''cpubench'', ''-5'', ''--multithreaded'', ''--nodigits''] =
     Bench_primes 18446744073709551611 \<and>
   main_action strtol10 [''cpubench'', ''-5'', ''--singlethreaded'', ''--nodigits''] =
     Bench_pi 18446744073709551611 False False \<and>
   main_action strtol10 [''cpubench'', ''-1'', ''--multithreaded'', ''--nodigits''] =
     Bench_primes 18446744073709551615 \<and>
   clc_prime (static_schedule 1) 18446744073709551615 init_globals = Some (0, init_globals) \<and>
   clc_prime_seq 18446744073709551615 init_globals = None \<and>
   main_action strtol10 [''cpubench'', ''0'', ''--multithreaded'', ''--nodigits''] =
     Exit_digit_error \<and>
   main_action strtol10 [''cpubench'', ''0'', ''--singlethreaded'', ''--nodigits''] =
     Exit_digit_error"
proof -
  have a: "clc_prime_seq 18446744073709551615 init_globals = None"
    unfolding max_bound_numeral by (rule clc_prime_seq_at_max)
  have "clc_prime (static_schedule 1) (- 1) init_globals = Some (tpnums init_globals, init_globals)"
    by (rule clc_prime_zero_trip [OF one_thread_valid])
  then have b: "clc_prime (static_schedule 1) 18446744073709551615 init_globals =
    Some (0, init_globals)"
    unfolding max_bound_numeral by (simp add: init_globals_def)
  have "main_action strtol10 [''cpubench'', ''-5'', ''--multithreaded'', ''--nodigits''] =
     Bench_primes 18446744073709551611 \<and>
   main_action strtol10 [''cpubench'', ''-5'', ''--singlethreaded'', ''--nodigits''] =
     Bench_pi 18446744073709551611 False False \<and>
   main_action strtol10 [''cpubench'', ''-1'', ''--multithreaded'', ''--nodigits''] =
     Bench_primes 18446744073709551615 \<and>
   main_action strtol10 [''cpubench'', ''0'', ''--multithreaded'', ''--nodigits''] =
     Exit_digit_error \<and>
   main_action strtol10 [''cpubench'', ''0'', ''--singlethreaded'', ''--nodigits''] =
     Exit_digit_error"
    by (simp add: main_action_def threading_of_def strtol10_def is_space_def is_digit_def)
  with a b show ?thesis by (simp only: simp_thms)
qed

section \<open>The integer logarithm and the working precision\<close>

lemma bit_top: "m < 2 ^ Suc n \<Longrightarrow> bit m n = (2 ^ n \<le> m)" for m :: nat
proof -
  assume a: "m < 2 ^ Suc n"
  then have "m div 2 ^ n < 2" by (simp add: less_mult_imp_div_less)
  then have "odd (m div 2 ^ n) = (m div 2 ^ n = 1)" by (cases "m div 2 ^ n") auto
  also have "\<dots> = (2 ^ n \<le> m)" using a \<open>m div 2 ^ n < 2\<close>
    by (metis One_nat_def Suc_1 div_greater_zero_iff div_less less_Suc_eq less_one not_le
        zero_less_numeral zero_less_power)
  finally show ?thesis by (simp add: bit_iff_odd)
qed

lemma lz_bounds:
  "unat w < 2 ^ n \<Longrightarrow> w \<noteq> 0 \<Longrightarrow>
   lz w n < n \<and> 2 ^ (n - lz w n - 1) \<le> unat w \<and> unat w < 2 ^ (n - lz w n)"
proof (induction n)
  case 0
  then have "unat w = 0" by simp
  then have "w = 0" by (simp add: unat_eq_zero)
  with 0 show ?case by simp
next
  case (Suc n)
  have b: "bit w n = (2 ^ n \<le> unat w)"
    using bit_top [OF Suc.prems(1)] by (simp add: bit_unsigned_iff)
  show ?case
  proof (cases "bit w n")
    case True
    with b Suc.prems show ?thesis by simp
  next
    case False
    with b have "unat w < 2 ^ n" by simp
    from Suc.IH [OF this Suc.prems(2)] False show ?thesis by simp
  qed
qed

lemma clc_log2_bounds:
  assumes "2 \<le> unat num"
  shows "unat (clc_log2 num) \<le> 32 \<and> unat num \<le> 2 ^ unat (clc_log2 num) \<and>
         2 ^ unat (clc_log2 num) < 2 * unat num"
proof -
  let ?m = "num - 1"
  have n1: "\<not> num \<le> 1" using assms by (simp add: word_le_nat_alt)
  have um: "unat ?m = unat num - 1"
    using assms by (simp add: unat_minus_one flip: unat_eq_zero)
  have m0: "?m \<noteq> 0"
  proof
    assume "?m = 0"
    then have "unat ?m = 0" by simp
    with um assms show False by simp
  qed
  have "unat ?m < 2 ^ 32" using unsigned_less [of ?m] by simp
  from lz_bounds [OF this m0]
  have l: "lz ?m 32 < 32" "2 ^ (32 - lz ?m 32 - 1) \<le> unat ?m" "unat ?m < 2 ^ (32 - lz ?m 32)"
    by simp_all
  have "unat (32 - word_of_nat (lz ?m 32) :: cuint) = 32 - lz ?m 32"
  proof -
    have "unat (word_of_nat (lz ?m 32) :: cuint) = lz ?m 32"
      using l(1) by (simp add: unat_of_nat)
    moreover have "(word_of_nat (lz ?m 32) :: cuint) \<le> 32"
      using l(1) by (simp add: word_le_nat_alt unat_of_nat)
    ultimately show ?thesis by (simp add: unat_sub)
  qed
  then have k: "unat (clc_log2 num) = 32 - lz ?m 32"
    using n1 by (simp add: clc_log2_def builtin_clz_def)
  have "2 * 2 ^ (32 - lz ?m 32 - 1) = (2::nat) ^ (32 - lz ?m 32)"
    using l(1) by (metis Suc_diff_1 power_Suc zero_less_diff)
  with l um assms k show ?thesis by auto
qed

lemma clc_log2_ceil:
  assumes "2 \<le> unat num"
  shows "int (unat (clc_log2 num)) = \<lceil>log 2 (real (unat num))\<rceil>"
proof -
  from clc_log2_bounds [OF assms]
  have "ceillog2 (unat num) = unat (clc_log2 num)" by (intro ceillog2_eqI) auto
  moreover have "unat num \<noteq> 0" using assms by simp
  ultimately have e: "nat \<lceil>log 2 (real (unat num))\<rceil> = unat (clc_log2 num)"
    by (simp add: ceillog2_def)
  have "1 \<le> real (unat num)" using assms by linarith
  then have "0 \<le> log 2 (real (unat num))"
    by (simp only: zero_le_log_cancel_iff one_less_numeral_iff semiring_norm)
  then have "0 \<le> \<lceil>log 2 (real (unat num))\<rceil>" by linarith
  with e show ?thesis by linarith
qed

lemma clc_log2_small: "unat num \<le> 1 \<Longrightarrow> clc_log2 num = 0"
  by (simp add: clc_log2_def word_le_nat_alt)

lemma lz_9: "lz 9 32 = 28"
  by (simp add: eval_nat_numeral bit_numeral_word_iff)

lemma clc_log2_10: "clc_log2 10 = 4"
  by (simp add: clc_log2_def builtin_clz_def lz_9 word_le_nat_alt)

lemma bit_length_eq: "2 ^ k \<le> n \<Longrightarrow> n < 2 ^ Suc k \<Longrightarrow> bit_length n = Suc k"
proof (induction k arbitrary: n)
  case 0
  then have "n = 1" by simp
  then show ?case by (simp add: bit_length.simps [of "Suc 0"] bit_length.simps [of 0])
next
  case (Suc k)
  then have "2 ^ k \<le> n div 2" "n div 2 < 2 ^ Suc k" "n \<noteq> 0" by auto
  with Suc.IH [of "n div 2"] show ?case by (simp add: bit_length.simps [of n])
qed

lemma rnd53_small: "v < 2 ^ 53 \<Longrightarrow> rnd53 v = v"
  by (simp add: rnd53_def)

lemma rnd53_2p53: "rnd53 9007199254740992 = 9007199254740992"
proof -
  have "bit_length 9007199254740992 = 54"
    using bit_length_eq [of 53 9007199254740992] by simp
  then show ?thesis by (simp add: rnd53_def)
qed

lemma rnd53_2p53_plus_1: "rnd53 9007199254740993 = 9007199254740992"
proof -
  have "bit_length 9007199254740993 = 54"
    using bit_length_eq [of 53 9007199254740993] by simp
  then show ?thesis by (simp add: rnd53_def)
qed

lemma precision_small:
  assumes "unat dgts < 2 ^ 51"
  shows "double_to_ulong (dadd (dmul (ulong_to_double dgts) 4) 1) = Some (4 * dgts + 1)"
proof -
  have a: "ulong_to_double dgts = unat dgts"
    using assms by (simp add: ulong_to_double_def rnd53_small)
  have b: "dmul (unat dgts) 4 = unat dgts * 4"
    using assms by (simp add: dmul_def rnd53_small)
  have c: "dadd (unat dgts * 4) 1 = unat dgts * 4 + 1"
    using assms by (simp add: dadd_def rnd53_small)
  have d: "double_to_ulong (unat dgts * 4 + 1) = Some (4 * dgts + 1)"
    using assms by (simp add: double_to_ulong_def)
  show ?thesis by (simp only: a b c d)
qed

lemma setup_small:
  assumes "unat dgts < 2 ^ 51"
  shows "clc_pi_setup dgts s =
    Some (dgts div 15 + 1,
      s\<lparr>bits := 4, precision := 4 * dgts + 1, default_prec := Some (4 * dgts + 1)\<rparr>)"
proof -
  have "unat (clc_log2 10) = 4" by (simp add: clc_log2_10)
  then show ?thesis unfolding clc_pi_setup_def Let_def
    by (simp only: precision_small [OF assms] option.case)
qed

lemma precision_2p51:
  "double_to_ulong (dadd (dmul (ulong_to_double 2251799813685248) 4) 1) =
     Some 9007199254740992"
proof -
  have a: "ulong_to_double 2251799813685248 = 2251799813685248"
    by (simp add: ulong_to_double_def rnd53_small)
  have b: "dmul 2251799813685248 4 = 9007199254740992"
    by (simp add: dmul_def rnd53_2p53)
  have c: "dadd 9007199254740992 1 = 9007199254740992"
    by (simp add: dadd_def rnd53_2p53_plus_1)
  show ?thesis by (simp only: a b c) (simp add: double_to_ulong_def)
qed

lemma iters_unat: "unat (dgts div 15 + 1 :: ulong) = unat dgts div 15 + 1"
proof -
  have "unat dgts < 2 ^ 64" using unsigned_less [of dgts] by simp
  then have "unat (dgts div 15) + unat (1 :: ulong) < 2 ^ LENGTH(64)" by (simp add: unat_div)
  then have "unat (dgts div 15 + 1) = unat (dgts div 15) + unat (1 :: ulong)"
    by (simp only: unat_add_lem)
  then show ?thesis by (simp add: unat_div)
qed

lemma precision_unat:
  assumes "unat (dgts :: ulong) < 2 ^ 51"
  shows "unat (4 * dgts + 1) = 4 * unat dgts + 1"
proof -
  have "unat (4 :: ulong) * unat dgts < 2 ^ LENGTH(64)" using assms by simp
  then have m: "unat (4 * dgts) = unat (4 :: ulong) * unat dgts" by (simp only: unat_mult_lem)
  then have "unat (4 * dgts) + unat (1 :: ulong) < 2 ^ LENGTH(64)" using assms by simp
  then have "unat (4 * dgts + 1) = unat (4 * dgts) + unat (1 :: ulong)"
    by (simp only: unat_add_lem)
  with m show ?thesis by simp
qed

lemma log2_10_le_4: "log 2 10 \<le> 4"
  by (simp add: log_le_iff)

lemma precision_suffices: "\<lceil>real d * log 2 10\<rceil> + 1 \<le> int (4 * d + 1)"
proof -
  have "real d * log 2 10 \<le> real d * 4"
    by (rule mult_left_mono [OF log2_10_le_4]) simp
  then have "real d * log 2 10 \<le> real_of_int (int (4 * d))" by simp
  then have "\<lceil>real d * log 2 10\<rceil> \<le> int (4 * d)" by (simp only: ceiling_le_iff)
  then show ?thesis by simp
qed

lemma spec_precision_2: "spec_precision 2 = 8"
proof -
  have "\<lceil>log (real 2) (real 100)\<rceil> = int 6 + 1"
    by (rule ceiling_log_nat_eq_if) simp_all
  moreover have "log 2 ((10::real) ^ 2) = real 2 * log 2 10" by (rule log_nat_power) simp
  moreover have "(10::real) ^ 2 = real 100" by simp
  ultimately have "\<lceil>real 2 * log 2 10\<rceil> = 7" by simp
  then show ?thesis by (simp add: spec_precision_def)
qed

subsection \<open>Claims about \<open>clc_log2\<close> and the precision\<close>

lemma clc_pi_small:
  assumes "unat dgts < 2 ^ 51"
  shows "clc_pi L get_str dgts s =
    Some (fst (get_str (pi_total L (4 * dgts + 1) (dgts div 15 + 1)) dgts),
      s\<lparr>bits := 4, precision := 4 * dgts + 1, default_prec := Some (4 * dgts + 1),
        exponent := snd (get_str (pi_total L (4 * dgts + 1) (dgts div 15 + 1)) dgts)\<rparr>)"
  by (simp add: clc_pi_def setup_small [OF assms] Let_def split_beta)

lemma clc_pi_output_state_independent:
  "map_option fst (clc_pi L get_str dgts s1) = map_option fst (clc_pi L get_str dgts s2)"
  by (simp add: clc_pi_def clc_pi_setup_def Let_def split_beta split: option.splits)

text \<open>
  C5. For the request of 2 digits the program sets the precision to 9 bits, while
  \<open>ceil(2 * log2(10)) + 1\<close> is 8.
\<close>

theorem clc_pi_precision_differs_from_spec:
  "map_option (unat \<circ> precision \<circ> snd) (clc_pi_setup 2 init_globals) \<noteq>
     Some (spec_precision 2) \<and>
   map_option (unat \<circ> precision \<circ> snd) (clc_pi_setup 2 init_globals) = Some 9 \<and>
   spec_precision 2 = 8"
proof -
  have "unat (2 :: ulong) < 2 ^ 51" by simp
  from setup_small [OF this, of init_globals] show ?thesis
    by (simp add: spec_precision_2)
qed

text \<open>
  C5, amended. For every digit request \<open>N\<close> below \<open>2 ^ 51\<close> the iteration count is
  \<open>floor(N / 15) + 1\<close> and the working precision is \<open>4 * N + 1\<close> bits, with
  \<open>4 = clc_log2(10)\<close> in place of \<open>log2(10)\<close>; this is never less than
  \<open>ceil(N * log2(10)) + 1\<close>. The precision is installed with
  \<^verbatim>\<open>mpf_set_default_prec\<close> as the default precision of the library, a setting of the
  whole process, and it is still in force when \<open>clc_pi\<close> has returned.
\<close>

theorem clc_pi_iters_and_precision:
  assumes "unat dgts < 2 ^ 51"
  shows "clc_pi_setup dgts s =
      Some (dgts div 15 + 1,
        s\<lparr>bits := 4, precision := 4 * dgts + 1, default_prec := Some (4 * dgts + 1)\<rparr>) \<and>
    unat (dgts div 15 + 1) = spec_iters (unat dgts) \<and>
    unat (4 * dgts + 1) = 4 * unat dgts + 1 \<and>
    spec_precision (unat dgts) \<le> 4 * unat dgts + 1 \<and>
    clc_pi L get_str dgts s =
      Some (fst (get_str (pi_total L (4 * dgts + 1) (dgts div 15 + 1)) dgts),
        s\<lparr>bits := 4, precision := 4 * dgts + 1, default_prec := Some (4 * dgts + 1),
          exponent := snd (get_str (pi_total L (4 * dgts + 1) (dgts div 15 + 1)) dgts)\<rparr>)"
proof -
  have "\<lceil>real (unat dgts) * log 2 10\<rceil> \<le> int (4 * unat dgts)"
    using precision_suffices [of "unat dgts"] by linarith
  then have "nat \<lceil>real (unat dgts) * log 2 10\<rceil> \<le> 4 * unat dgts"
    by (simp only: nat_le_iff)
  then have "spec_precision (unat dgts) \<le> 4 * unat dgts + 1"
    by (simp only: spec_precision_def add_le_cancel_right)
  then show ?thesis
    by (simp only: setup_small [OF assms] clc_pi_small [OF assms] iters_unat spec_iters_def
        precision_unat [OF assms] simp_thms)
qed

theorem clc_pi_iters_and_precision_witness:
  "unat (1 :: ulong) < 2 ^ 51 \<and>
   clc_pi_setup 1 init_globals =
     Some (1, \<lparr>tpnums = 0, bits = 4, precision = 5, exponent = 0, default_prec = Some 5\<rparr>) \<and>
   clc_pi exact_lib (\<lambda>x n. (''3'', 1)) 1 init_globals =
     Some (''3'', \<lparr>tpnums = 0, bits = 4, precision = 5, exponent = 1, default_prec = Some 5\<rparr>)"
proof -
  have h: "unat (1 :: ulong) < 2 ^ 51" by simp
  from clc_pi_iters_and_precision [OF h, of init_globals exact_lib "\<lambda>x n. (''3'', 1)"]
  show ?thesis by (simp add: init_globals_def)
qed

text \<open>
  C10. For the request of \<open>2 ^ 51\<close> digits the \<^verbatim>\<open>double\<close> sum \<open>2 ^ 53 + 1\<close> is rounded
  to \<open>2 ^ 53\<close>: the precision that is set is not \<open>4 * digits + 1\<close>.
\<close>

theorem clc_pi_precision_rounded:
  "clc_pi_setup 2251799813685248 init_globals =
     Some (150119987579017,
       init_globals\<lparr>bits := 4, precision := 9007199254740992,
         default_prec := Some 9007199254740992\<rparr>) \<and>
   (9007199254740992 :: ulong) \<noteq> 4 * 2251799813685248 + 1"
proof -
  have "unat (clc_log2 10) = 4" by (simp add: clc_log2_10)
  then have "clc_pi_setup 2251799813685248 init_globals =
     Some (2251799813685248 div 15 + 1,
       init_globals\<lparr>bits := 4, precision := 9007199254740992,
         default_prec := Some 9007199254740992\<rparr>)"
    unfolding clc_pi_setup_def Let_def by (simp only: precision_2p51 option.case)
  then show ?thesis by simp
qed

text \<open>
  C10, amended. \<open>clc_log2(n)\<close> is \<open>ceil(log2(n))\<close> for every \<open>n\<close> from 2 to
  \<open>2 ^ 32 - 1\<close> and 0 for \<open>n \<le> 1\<close>; \<open>clc_log2(10) = 4\<close>. For every digit count below
  \<open>2 ^ 51\<close> (so for every value from 1 to \<open>2 ^ 32 - 1\<close> that the usage text admits)
  \<open>clc_pi\<close> sets the default precision to exactly \<open>4 * digits + 1\<close> bits, which is at
  least \<open>ceil(digits * log2(10)) + 1\<close>.
\<close>

theorem clc_log2_ceiling_log2:
  "(2 \<le> unat n \<longrightarrow> int (unat (clc_log2 n)) = \<lceil>log 2 (real (unat n))\<rceil>) \<and>
   (unat n \<le> 1 \<longrightarrow> clc_log2 n = 0) \<and>
   clc_log2 10 = 4 \<and>
   (unat dgts < 2 ^ 51 \<longrightarrow>
      map_option (default_prec \<circ> snd) (clc_pi_setup dgts s) = Some (Some (4 * dgts + 1)) \<and>
      unat (4 * dgts + 1) = 4 * unat dgts + 1 \<and>
      \<lceil>real (unat dgts) * log 2 10\<rceil> + 1 \<le> int (4 * unat dgts + 1))"
proof -
  have "map_option (default_prec \<circ> snd) (clc_pi_setup dgts s) = Some (Some (4 * dgts + 1))"
    if "unat dgts < 2 ^ 51"
    by (simp add: setup_small [OF that])
  then show ?thesis
    using clc_log2_ceil [of n] clc_log2_small [of n] clc_log2_10 precision_unat [of dgts]
      precision_suffices [of "unat dgts"]
    by blast
qed

theorem clc_log2_ceiling_log2_witness:
  "2 \<le> unat (10 :: cuint) \<and> int (unat (clc_log2 10)) = \<lceil>log 2 (real (unat (10 :: cuint)))\<rceil> \<and>
   unat (1 :: cuint) \<le> 1 \<and> clc_log2 1 = 0 \<and>
   unat (15 :: ulong) < 2 ^ 51 \<and>
   map_option (default_prec \<circ> snd) (clc_pi_setup 15 init_globals) = Some (Some 61)"
proof -
  have a: "2 \<le> unat (10 :: cuint)" and b: "unat (1 :: cuint) \<le> 1"
    and c: "unat (15 :: ulong) < 2 ^ 51" by simp_all
  from a clc_log2_ceiling_log2 [of 10]
  have "int (unat (clc_log2 10)) = \<lceil>log 2 (real (unat (10 :: cuint)))\<rceil>" by blast
  moreover from b clc_log2_ceiling_log2 [of 1] have "clc_log2 1 = 0" by blast
  moreover from c clc_log2_ceiling_log2 [of _ 15 init_globals]
  have "map_option (default_prec \<circ> snd) (clc_pi_setup 15 init_globals) =
    Some (Some (4 * 15 + 1))" by blast
  ultimately show ?thesis using a b c by simp
qed

section \<open>The Chudnovsky loop\<close>

lemma odd_unat: "odd (unat w) = odd w" for w :: ulong
proof -
  have "bit (unat w) 0 = bit w 0" by (simp add: bit_unsigned_iff)
  then show ?thesis by (simp only: bit_0)
qed

lemma series_term_eq:
  assumes "6 * unat i < 2 ^ 64"
  shows "series_term i = (chud_num (unat i), chud_den (unat i))"
proof -
  have u3: "unat (i * 3) = 3 * unat i"
  proof -
    have "unat i * unat (3 :: ulong) < 2 ^ LENGTH(64)" using assms by simp
    then have "unat (i * 3) = unat i * unat (3 :: ulong)" by (simp only: unat_mult_lem)
    then show ?thesis by simp
  qed
  have u6: "unat (6 * i) = 6 * unat i"
  proof -
    have "unat (6 :: ulong) * unat i < 2 ^ LENGTH(64)" using assms by simp
    then have "unat (6 * i) = unat (6 :: ulong) * unat i" by (simp only: unat_mult_lem)
    then show ?thesis by simp
  qed
  have odd3: "(1 AND (i * 3) = 1) = odd (3 * unat i)"
  proof -
    have "(1 AND (i * 3) = 1) = odd (i * 3)"
      by (simp only: one_and_eq odd_iff_mod_2_eq_one)
    also have "\<dots> = odd (unat (i * 3))" by (simp only: odd_unat)
    finally show ?thesis by (simp only: u3)
  qed
  have ui: "uint i = int (unat i)" by simp
  show ?thesis
    unfolding series_term_def Let_def chud_num_def chud_den_def chud_sign_def
      constant1_def constant2_def constant3_def u3 u6 odd3 ui
    by simp
qed

lemma pi_loop_foldl:
  assumes "i \<le> iters"
  shows "pi_loop L p iters i a =
    foldl (\<lambda>a k. let (v1, v3) = series_term (word_of_nat k) in
        mpf_add L p a (mpf_div L p (mpf_set_z L p v1) (mpf_set_z L p v3))) a [unat i..<unat iters]"
  using assms
proof (induction L p iters i a rule: pi_loop.induct)
  case (1 L p iters i a)
  show ?case
  proof (cases "i < iters")
    case False
    with "1.prems" have "i = iters" by simp
    then show ?thesis by (simp add: pi_loop.simps [of L p iters iters])
  next
    case True
    then have inc: "unat (i + 1) = Suc (unat i)" by (rule unat_inc)
    from True have le: "i + 1 \<le> iters" by (rule inc_le)
    from True have lt: "unat i < unat iters" by (simp add: word_less_nat_alt)
    then have up: "[unat i..<unat iters] = unat i # [Suc (unat i)..<unat iters]"
      by (simp add: upt_conv_Cons)
    obtain v1 v3 where st: "series_term i = (v1, v3)" by (cases "series_term i")
    have ih: "pi_loop L p iters (i + 1) (mpf_add L p a (mpf_div L p (mpf_set_z L p v1) (mpf_set_z L p v3))) =
      foldl (\<lambda>a k. let (v1, v3) = series_term (word_of_nat k) in
        mpf_add L p a (mpf_div L p (mpf_set_z L p v1) (mpf_set_z L p v3)))
        (mpf_add L p a (mpf_div L p (mpf_set_z L p v1) (mpf_set_z L p v3))) [unat (i + 1)..<unat iters]"
      using "1.IH" [OF True st [symmetric] refl refl refl refl le] .
    show ?thesis
      using True st ih by (simp add: pi_loop.simps [of L p iters i] up inc)
  qed
qed

lemma pi_loop_terms:
  "pi_loop L p (dgts div 15 + 1) 0 a = foldl (add_term L p) a [0..<unat dgts div 15 + 1]"
proof -
  have b: "unat dgts < 2 ^ 64" using unsigned_less [of dgts] by simp
  have "foldl (\<lambda>a k. let (v1, v3) = series_term (word_of_nat k) in
        mpf_add L p a (mpf_div L p (mpf_set_z L p v1) (mpf_set_z L p v3))) a [0..<n] =
        foldl (add_term L p) a [0..<n]" if "n \<le> unat dgts div 15 + 1" for n
    using that
  proof (induction n arbitrary: a)
    case 0 show ?case by simp
  next
    case (Suc n)
    then have "n \<le> unat dgts div 15" by simp
    with b have n: "6 * n < 2 ^ 64" by simp
    then have "unat (word_of_nat n :: ulong) = n" by (simp add: unat_of_nat)
    with n have "series_term (word_of_nat n) = (chud_num n, chud_den n)"
      using series_term_eq [of "word_of_nat n"] by simp
    with Suc show ?case by (simp add: add_term_def)
  qed
  from this [of "unat dgts div 15 + 1"] show ?thesis
    using pi_loop_foldl [of 0 "dgts div 15 + 1" L p a] by (simp add: iters_unat)
qed

lemma foldl_exact: "foldl (add_term exact_lib p) a [0..<n] =
  a + (\<Sum>k<n. real_of_int (chud_num k) / real_of_int (chud_den k))"
  by (induction n) (simp_all add: add_term_def exact_lib_def)

lemma pi_total_terms:
  "pi_total L p (dgts div 15 + 1) =
    mpf_mul L p (mpf_ui_div L p 1 (foldl (add_term L p) (mpf_set_ui L p 0) [0..<unat dgts div 15 + 1]))
      (mpf_mul_ui L p (mpf_sqrt_ui L p 10005) 426880)"
  by (simp add: pi_total_def pi_loop_terms)

lemma pi_total_exact:
  "pi_total exact_lib p (dgts div 15 + 1) =
    426880 * sqrt 10005 / (\<Sum>k<unat dgts div 15 + 1. real_of_int (chud_num k) / real_of_int (chud_den k))"
proof -
  have "pi_total exact_lib p (dgts div 15 + 1) =
    mpf_mul exact_lib p (mpf_ui_div exact_lib p 1 (mpf_set_ui exact_lib p 0 +
      (\<Sum>k<unat dgts div 15 + 1. real_of_int (chud_num k) / real_of_int (chud_den k))))
    (mpf_mul_ui exact_lib p (mpf_sqrt_ui exact_lib p 10005) 426880)"
    by (simp only: pi_total_terms foldl_exact)
  then show ?thesis by (simp add: exact_lib_def)
qed

lemma series_term_in_loop:
  assumes "i < dgts div 15 + 1"
  shows "series_term i = (chud_num (unat i), chud_den (unat i))"
proof -
  from assms have "unat i < unat dgts div 15 + 1" by (simp add: word_less_nat_alt iters_unat)
  moreover have "unat dgts < 2 ^ 64" using unsigned_less [of dgts] by simp
  ultimately have "6 * unat i < 2 ^ 64" by simp
  then show ?thesis by (rule series_term_eq)
qed

subsection \<open>Claim about the series\<close>

text \<open>
  C4. In every iteration \<open>i\<close> of the loop (for any digit request) the integers handed
  to \<^verbatim>\<open>mpf_set_z\<close> are the exact numerator \<open>(6i)! * (545140134 * i + 13591409)\<close> and
  the exact denominator \<open>(3i)! * (i!)^3 * 640320^(3i) * sign\<close>, with \<open>sign = -1\<close> when
  \<open>3i\<close> is odd and \<open>+1\<close> otherwise; their ratio is what is added to the accumulator,
  which starts at 0; and the final value is \<open>(1 / Accumulator)\<close> times
  \<open>sqrt(10005) * 426880\<close>. Carried out on the reals this is
  \<open>426880 * sqrt(10005) / Accumulator\<close>, the accumulator being the sum of the ratios.
\<close>

theorem chudnovsky_terms_and_total:
  "(i < dgts div 15 + 1 \<longrightarrow> series_term i = (chud_num (unat i), chud_den (unat i))) \<and>
   pi_total L p (dgts div 15 + 1) =
     mpf_mul L p
       (mpf_ui_div L p 1
         (foldl (add_term L p) (mpf_set_ui L p 0) [0..<unat dgts div 15 + 1]))
       (mpf_mul_ui L p (mpf_sqrt_ui L p 10005) 426880) \<and>
   pi_total exact_lib p (dgts div 15 + 1) =
     426880 * sqrt 10005 /
       (\<Sum>k<unat dgts div 15 + 1. real_of_int (chud_num k) / real_of_int (chud_den k))"
  using series_term_in_loop [of i dgts] pi_total_terms [of L p dgts] pi_total_exact [of p dgts]
  by blast

theorem chudnovsky_terms_and_total_witness:
  "(1 :: ulong) < 15 div 15 + 1 \<and>
   series_term 1 = (402286710960, - 1575224475844608000) \<and>
   chud_sign 1 = - 1 \<and> chud_sign 2 = 1"
proof -
  have h: "(1 :: ulong) < 15 div 15 + 1" by simp
  have n: "chud_num 1 = 402286710960" "chud_den 1 = - 1575224475844608000"
    "chud_sign 1 = - 1" "chud_sign 2 = 1"
    by (simp_all add: chud_num_def chud_den_def chud_sign_def fact_numeral)
  from h chudnovsky_terms_and_total [of 1 15]
  have "series_term 1 = (chud_num (unat (1 :: ulong)), chud_den (unat (1 :: ulong)))" by blast
  with h n show ?thesis by simp
qed

section \<open>The digits returned\<close>

subsection \<open>Bounds on \<open>pi\<close> from Machin's formula\<close>

lemma arctan_partial_bounds:
  fixes x :: real
  assumes "0 < x" and "x \<le> 1"
  shows "(\<Sum>k<2 * n. (- 1) ^ k * (1 / real (k * 2 + 1) * x ^ (k * 2 + 1))) \<le> arctan x"
    and "arctan x \<le> (\<Sum>k<2 * n + 1. (- 1) ^ k * (1 / real (k * 2 + 1) * x ^ (k * 2 + 1)))"
proof -
  have ax: "\<bar>x\<bar> \<le> 1" using assms by simp
  have pos: "0 < 1 / real (0 * 2 + 1) * x ^ (0 * 2 + 1)" using assms by simp
  from summable_Leibniz(2) [OF zeroseq_arctan_series [OF ax] monoseq_arctan_series [OF ax]] pos
  have "(\<Sum>i. (- 1) ^ i * (1 / real (i * 2 + 1) * x ^ (i * 2 + 1))) \<in>
    {\<Sum>i<2 * n. (- 1) ^ i * (1 / real (i * 2 + 1) * x ^ (i * 2 + 1)) ..
     \<Sum>i<2 * n + 1. (- 1) ^ i * (1 / real (i * 2 + 1) * x ^ (i * 2 + 1))}"
    by blast
  then have "arctan x \<in>
    {\<Sum>i<2 * n. (- 1) ^ i * (1 / real (i * 2 + 1) * x ^ (i * 2 + 1)) ..
     \<Sum>i<2 * n + 1. (- 1) ^ i * (1 / real (i * 2 + 1) * x ^ (i * 2 + 1))}"
    by (simp only: arctan_series [OF ax])
  then show "(\<Sum>k<2 * n. (- 1) ^ k * (1 / real (k * 2 + 1) * x ^ (k * 2 + 1))) \<le> arctan x"
    and "arctan x \<le> (\<Sum>k<2 * n + 1. (- 1) ^ k * (1 / real (k * 2 + 1) * x ^ (k * 2 + 1)))"
    by simp_all
qed

lemma sum_lessThan_numeral:
  "(\<Sum>k<numeral m. f k) = (\<Sum>k<pred_numeral m. f k) + (f (pred_numeral m) :: real)"
  by (simp only: numeral_eq_Suc sum.lessThan_Suc)

lemma arctan5_upper: "arctan (1 / 5) \<le> (0.1973955598498807583700497651947904 :: real)"
proof -
  have "arctan (1 / 5 :: real) \<le>
    (\<Sum>k<2 * 11 + 1. (- 1) ^ k * (1 / real (k * 2 + 1) * (1 / 5) ^ (k * 2 + 1)))"
    by (rule arctan_partial_bounds) simp_all
  also have "\<dots> \<le> 0.1973955598498807583700497651947904"
    by (simp add: sum_lessThan_numeral power_one_over)
  finally show ?thesis .
qed

lemma arctan5_lower: "(0.1973955598498807583700497651947895 :: real) \<le> arctan (1 / 5)"
proof -
  have "(0.1973955598498807583700497651947895 :: real) \<le>
    (\<Sum>k<2 * 11. (- 1) ^ k * (1 / real (k * 2 + 1) * (1 / 5) ^ (k * 2 + 1)))"
    by (simp add: sum_lessThan_numeral power_one_over)
  also have "\<dots> \<le> arctan (1 / 5)"
    by (rule arctan_partial_bounds) simp_all
  finally show ?thesis .
qed

lemma arctan239_upper: "arctan (1 / 239) \<le> (0.004184076002074723864538214959286 :: real)"
proof -
  have "arctan (1 / 239 :: real) \<le>
    (\<Sum>k<2 * 3 + 1. (- 1) ^ k * (1 / real (k * 2 + 1) * (1 / 239) ^ (k * 2 + 1)))"
    by (rule arctan_partial_bounds) simp_all
  also have "\<dots> \<le> 0.004184076002074723864538214959286"
    by (simp add: sum_lessThan_numeral power_one_over)
  finally show ?thesis .
qed

lemma arctan239_lower: "(0.004184076002074723864538214959276 :: real) \<le> arctan (1 / 239)"
proof -
  have "(0.004184076002074723864538214959276 :: real) \<le>
    (\<Sum>k<2 * 3. (- 1) ^ k * (1 / real (k * 2 + 1) * (1 / 239) ^ (k * 2 + 1)))"
    by (simp add: sum_lessThan_numeral power_one_over)
  also have "\<dots> \<le> arctan (1 / 239)"
    by (rule arctan_partial_bounds) simp_all
  finally show ?thesis .
qed

lemma pi_bounds:
  "(3.141592653589793238462643383279488 :: real) \<le> pi"
  "pi \<le> (3.1415926535897932384626433832795424 :: real)"
proof -
  have m: "pi = 16 * arctan (1 / 5) - 4 * arctan (1 / 239)"
    using machin by simp
  show "(3.141592653589793238462643383279488 :: real) \<le> pi"
    unfolding m using arctan5_lower arctan239_upper by simp
  show "pi \<le> (3.1415926535897932384626433832795424 :: real)"
    unfolding m using arctan5_upper arctan239_lower by simp
qed

subsection \<open>The value handed to the conversion, in exact arithmetic\<close>

lemma sqrt_10005_bounds:
  "(100.0249968757810059447921878763577780015950 :: real) \<le> sqrt 10005"
  "sqrt 10005 \<le> (100.0249968757810059447921878763577780015951 :: real)"
proof -
  show "(100.0249968757810059447921878763577780015950 :: real) \<le> sqrt 10005"
    by (rule real_le_rsqrt) (simp add: power2_eq_square)
  show "sqrt 10005 \<le> (100.0249968757810059447921878763577780015951 :: real)"
    by (rule real_le_lsqrt) (simp_all add: power2_eq_square)
qed


lemma chud_sums:
  "(\<Sum>k<1. real_of_int (chud_num k) / real_of_int (chud_den k)) = 13591409"
  "(\<Sum>k<2. real_of_int (chud_num k) / real_of_int (chud_den k)) =
     13591409 + 402286710960 / - 1575224475844608000"
  by (simp_all add: sum_lessThan_numeral chud_num_def chud_den_def chud_sign_def fact_numeral)

lemma pi_total_exact_values:
  "pi_total exact_lib p 1 = 426880 * sqrt 10005 / 13591409"
  "pi_total exact_lib p 2 =
     426880 * sqrt 10005 / (13591409 + 402286710960 / - 1575224475844608000)"
proof -
  have "pi_total exact_lib p (0 div 15 + 1) =
    426880 * sqrt 10005 /
      (\<Sum>k<unat (0 :: ulong) div 15 + 1. real_of_int (chud_num k) / real_of_int (chud_den k))"
    by (rule pi_total_exact)
  moreover have "unat (0 :: ulong) div 15 + 1 = 1" "(0 :: ulong) div 15 + 1 = 1" by simp_all
  ultimately show "pi_total exact_lib p 1 = 426880 * sqrt 10005 / 13591409"
    by (simp only: chud_sums)
  have "pi_total exact_lib p (15 div 15 + 1) =
    426880 * sqrt 10005 /
      (\<Sum>k<unat (15 :: ulong) div 15 + 1. real_of_int (chud_num k) / real_of_int (chud_den k))"
    by (rule pi_total_exact)
  moreover have "unat (15 :: ulong) div 15 + 1 = 2" "(15 :: ulong) div 15 + 1 = 2" by simp_all
  ultimately show "pi_total exact_lib p 2 =
     426880 * sqrt 10005 / (13591409 + 402286710960 / - 1575224475844608000)"
    by (simp only: chud_sums)
qed

lemma scaled_sqrt_lower:
  fixes c lo :: real
  assumes "0 < c"
    and "lo * c \<le> 426880 * 100.0249968757810059447921878763577780015950"
  shows "lo \<le> 426880 * sqrt 10005 / c"
proof -
  have "lo * c \<le> 426880 * sqrt 10005"
    using assms(2) sqrt_10005_bounds(1) by simp
  then show ?thesis using assms(1) by (simp add: pos_le_divide_eq)
qed

lemma scaled_sqrt_upper:
  fixes c hi :: real
  assumes "0 < c"
    and "426880 * 100.0249968757810059447921878763577780015951 \<le> hi * c"
  shows "426880 * sqrt 10005 / c \<le> hi"
proof -
  have "426880 * sqrt 10005 \<le> hi * c"
    using assms(2) sqrt_10005_bounds(2) by simp
  then show ?thesis using assms(1) by (simp add: pos_divide_le_eq)
qed

lemma pi_total_exact_bounds:
  "3.1415926535897342 \<le> pi_total exact_lib p 1"
  "pi_total exact_lib p 1 \<le> 3.1415926535897343"
  "3.14159265358979323846264338358735 \<le> pi_total exact_lib p 2"
  "pi_total exact_lib p 2 \<le> 3.14159265358979323846264338358736"
proof -
  show "3.1415926535897342 \<le> pi_total exact_lib p 1"
    unfolding pi_total_exact_values by (rule scaled_sqrt_lower) simp_all
  show "pi_total exact_lib p 1 \<le> 3.1415926535897343"
    unfolding pi_total_exact_values by (rule scaled_sqrt_upper) simp_all
  show "3.14159265358979323846264338358735 \<le> pi_total exact_lib p 2"
    unfolding pi_total_exact_values by (rule scaled_sqrt_lower) simp_all
  show "pi_total exact_lib p 2 \<le> 3.14159265358979323846264338358736"
    unfolding pi_total_exact_values by (rule scaled_sqrt_upper) simp_all
qed

lemma digits_between:
  fixes x lo hi :: real
  assumes "lo \<le> x" and "x \<le> hi"
  shows "of_int z \<le> lo * 10 ^ (n - 1) \<Longrightarrow> hi * 10 ^ (n - 1) < of_int z + 1 \<Longrightarrow>
      first_digits x n = z"
    and "of_int z - 1 / 2 \<le> lo * 10 ^ (n - 1) \<Longrightarrow> hi * 10 ^ (n - 1) < of_int z + 1 / 2 \<Longrightarrow>
      rounded_digits x n = z"
proof -
  have l: "lo * 10 ^ (n - 1) \<le> x * 10 ^ (n - 1)"
    using assms(1) by (simp add: mult_right_mono)
  have h: "x * 10 ^ (n - 1) \<le> hi * 10 ^ (n - 1)"
    using assms(2) by (simp add: mult_right_mono)
  show "first_digits x n = z"
    if a: "of_int z \<le> lo * 10 ^ (n - 1)" and b: "hi * 10 ^ (n - 1) < of_int z + 1"
    unfolding first_digits_def
  proof (rule floor_unique)
    show "of_int z \<le> x * 10 ^ (n - 1)" using a l by (rule order_trans)
    show "x * 10 ^ (n - 1) < of_int z + 1" using h b by (rule le_less_trans)
  qed
  show "rounded_digits x n = z"
    if "of_int z - 1 / 2 \<le> lo * 10 ^ (n - 1)" and "hi * 10 ^ (n - 1) < of_int z + 1 / 2"
  proof -
    have "of_int z \<le> x * 10 ^ (n - 1) + 1 / 2" using that(1) l by linarith
    moreover have "x * 10 ^ (n - 1) + 1 / 2 < of_int z + 1" using that(2) h by linarith
    ultimately have "\<lfloor>x * 10 ^ (n - 1) + 1 / 2\<rfloor> = z" by (rule floor_unique)
    then show ?thesis by (simp only: rounded_digits_def round_def)
  qed
qed

lemma pi_digits:
  "first_digits pi 1 = 3" "first_digits pi 15 = 314159265358979"
  "first_digits pi 29 = 31415926535897932384626433832"
  "rounded_digits pi 29 = 31415926535897932384626433833"
  by (rule digits_between [OF pi_bounds]; simp)+

lemma pi_total_digits:
  "first_digits (pi_total exact_lib p 1) 1 = 3"
  "first_digits (pi_total exact_lib p 2) 15 = 314159265358979"
  "first_digits (pi_total exact_lib p 2) 29 = 31415926535897932384626433835"
  "rounded_digits (pi_total exact_lib p 2) 29 = 31415926535897932384626433836"
proof -
  show "first_digits (pi_total exact_lib p 1) 1 = 3"
    by (rule digits_between [OF pi_total_exact_bounds(1,2)]; simp)
  show "first_digits (pi_total exact_lib p 2) 15 = 314159265358979"
    by (rule digits_between [OF pi_total_exact_bounds(3,4)]; simp)
  show "first_digits (pi_total exact_lib p 2) 29 = 31415926535897932384626433835"
    by (rule digits_between [OF pi_total_exact_bounds(3,4)]; simp)
  show "rounded_digits (pi_total exact_lib p 2) 29 = 31415926535897932384626433836"
    by (rule digits_between [OF pi_total_exact_bounds(3,4)]; simp)
qed

lemma clc_pi_29:
  "clc_pi L get_str 29 s =
     Some (fst (get_str (pi_total L 117 2) 29),
       s\<lparr>bits := 4, precision := 117, default_prec := Some 117,
         exponent := snd (get_str (pi_total L 117 2) 29)\<rparr>)"
proof -
  have "unat (29 :: ulong) < 2 ^ 51" by simp
  from clc_pi_small [OF this, of L get_str s] show ?thesis by simp
qed

subsection \<open>Claim about the digits\<close>

text \<open>
  C1. For the request of 29 digits the loop runs \<open>29 / 15 + 1 = 2\<close> times. Even when
  every library operation is carried out without rounding, the value that \<open>clc_pi\<close>
  hands to the decimal conversion is \<open>3.14159265358979323846264338358...\<close>, while
  \<open>pi\<close> is \<open>3.14159265358979323846264338327...\<close>: two terms of the series fix about 28
  digits, not 29. The 29 digits of the value are \<open>...835\<close> (\<open>...836\<close> when rounded to
  nearest), those of \<open>pi\<close> are \<open>...832\<close> (\<open>...833\<close> when rounded), so the digit string
  returned for 29 is not the decimal expansion of \<open>pi\<close>.
\<close>

theorem clc_pi_29_digits:
  "clc_pi exact_lib get_str 29 s =
     Some (fst (get_str (pi_total exact_lib 117 2) 29),
       s\<lparr>bits := 4, precision := 117, default_prec := Some 117,
         exponent := snd (get_str (pi_total exact_lib 117 2) 29)\<rparr>) \<and>
   pi_total exact_lib 117 2 =
     426880 * sqrt 10005 / (13591409 + 402286710960 / - 1575224475844608000) \<and>
   first_digits (pi_total exact_lib 117 2) 29 = 31415926535897932384626433835 \<and>
   rounded_digits (pi_total exact_lib 117 2) 29 = 31415926535897932384626433836 \<and>
   first_digits pi 29 = 31415926535897932384626433832 \<and>
   rounded_digits pi 29 = 31415926535897932384626433833"
  by (simp only: clc_pi_29 pi_total_exact_values pi_total_digits [unfolded pi_total_exact_values]
      pi_digits simp_thms)

section \<open>Repeated calls\<close>

lemma clc_pi_second_call:
  "map_option fst (case clc_pi L get_str dgts s of None \<Rightarrow> None
      | Some (r, s') \<Rightarrow> clc_pi L get_str dgts s') =
   map_option fst (clc_pi L get_str dgts s)"
proof (cases "clc_pi L get_str dgts s")
  case None
  then show ?thesis by simp
next
  case (Some a)
  obtain r s' where a: "a = (r, s')" by (cases a)
  have "map_option fst (clc_pi L get_str dgts s') = map_option fst (clc_pi L get_str dgts s)"
    by (rule clc_pi_output_state_independent)
  then show ?thesis by (simp add: Some a)
qed

text \<open>
  C7, amended. \<open>clc_pi\<close> is idempotent across calls: the digit string it returns does
  not depend on the globals it is entered with, so a second call with the same digit
  count, entered with the globals the first call left, returns the same string.
  \<open>clc_prime\<close> returns the value \<open>tpnums\<close> holds on entry plus the count for \<open>max\<close> (for
  every \<open>max\<close> below \<open>2 ^ 64 - 1\<close>, as a 32-bit value) and leaves that sum in \<open>tpnums\<close>:
  the first call in a process returns the count, and a second call with the same
  \<open>max\<close> returns twice the count.
\<close>

theorem clc_repeated_calls:
  "map_option fst (clc_pi L get_str dgts s1) = map_option fst (clc_pi L get_str dgts s2) \<and>
   map_option fst (case clc_pi L get_str dgts s1 of None \<Rightarrow> None
      | Some (r, s') \<Rightarrow> clc_pi L get_str dgts s') =
     map_option fst (clc_pi L get_str dgts s1) \<and>
   (valid_schedule schedule (candidates mx) \<and> mx + 1 \<noteq> 0 \<longrightarrow>
      clc_prime schedule mx s =
        Some (tpnums s + word_of_nat (trial_count (unat mx)),
          s\<lparr>tpnums := tpnums s + word_of_nat (trial_count (unat mx))\<rparr>) \<and>
      map_option fst (clc_prime schedule mx init_globals) =
        Some (word_of_nat (trial_count (unat mx))) \<and>
      map_option fst (case clc_prime schedule mx init_globals of None \<Rightarrow> None
         | Some (r, s') \<Rightarrow> clc_prime schedule mx s') =
        Some (word_of_nat (trial_count (unat mx)) + word_of_nat (trial_count (unat mx))))"
proof -
  have "clc_prime schedule mx s =
        Some (tpnums s + word_of_nat (trial_count (unat mx)),
          s\<lparr>tpnums := tpnums s + word_of_nat (trial_count (unat mx))\<rparr>) \<and>
      map_option fst (clc_prime schedule mx init_globals) =
        Some (word_of_nat (trial_count (unat mx))) \<and>
      map_option fst (case clc_prime schedule mx init_globals of None \<Rightarrow> None
         | Some (r, s') \<Rightarrow> clc_prime schedule mx s') =
        Some (word_of_nat (trial_count (unat mx)) + word_of_nat (trial_count (unat mx)))"
    if v: "valid_schedule schedule (candidates mx)" and m: "mx + 1 \<noteq> 0"
    unfolding clc_prime_sched [OF v m] by (simp add: init_globals_def)
  then show ?thesis
    using clc_pi_output_state_independent [of L get_str dgts s1 s2]
      clc_pi_second_call [of L get_str dgts s1]
    by blast
qed

theorem clc_repeated_calls_witness:
  "valid_schedule (static_schedule 2) (candidates 10) \<and> (10 :: ulong) + 1 \<noteq> 0 \<and>
   clc_prime (static_schedule 2) 10 (init_globals\<lparr>tpnums := 4\<rparr>) =
     Some (8, init_globals\<lparr>tpnums := 8\<rparr>) \<and>
   map_option fst (clc_prime (static_schedule 2) 10 init_globals) = Some 4 \<and>
   map_option fst (case clc_prime (static_schedule 2) 10 init_globals of None \<Rightarrow> None
      | Some (r, s') \<Rightarrow> clc_prime (static_schedule 2) 10 s') = Some 8 \<and>
   map_option fst (clc_pi exact_lib (\<lambda>x n. (''3'', 1)) 1 init_globals) =
     map_option fst (clc_pi exact_lib (\<lambda>x n. (''3'', 1)) 1 (init_globals\<lparr>tpnums := 4\<rparr>))"
proof -
  have v: "valid_schedule (static_schedule 2) (candidates 10)"
    by (rule static_schedule_valid) simp
  have m: "(10 :: ulong) + 1 \<noteq> 0" by simp
  have t: "word_of_nat (trial_count (unat (10 :: ulong))) = (4 :: cint)"
    by (simp add: trial_count_examples)
  note c = clc_repeated_calls [of exact_lib "\<lambda>x n. (''3'', 1)" 1 init_globals
      "init_globals\<lparr>tpnums := 4\<rparr>" "static_schedule 2" 10 "init_globals\<lparr>tpnums := 4\<rparr>"]
  from c v m have "clc_prime (static_schedule 2) 10 (init_globals\<lparr>tpnums := 4\<rparr>) =
     Some (tpnums (init_globals\<lparr>tpnums := 4\<rparr>) + word_of_nat (trial_count (unat (10 :: ulong))),
       init_globals\<lparr>tpnums := 4, tpnums := tpnums (init_globals\<lparr>tpnums := 4\<rparr>) +
         word_of_nat (trial_count (unat (10 :: ulong)))\<rparr>)" by blast
  then have a: "clc_prime (static_schedule 2) 10 (init_globals\<lparr>tpnums := 4\<rparr>) =
     Some (8, init_globals\<lparr>tpnums := 8\<rparr>)"
    unfolding t by simp
  from c v m have "map_option fst (clc_prime (static_schedule 2) 10 init_globals) =
    Some (word_of_nat (trial_count (unat (10 :: ulong))))" by blast
  then have b: "map_option fst (clc_prime (static_schedule 2) 10 init_globals) = Some 4"
    unfolding t .
  from c v m have "map_option fst (case clc_prime (static_schedule 2) 10 init_globals of None \<Rightarrow> None
      | Some (r, s') \<Rightarrow> clc_prime (static_schedule 2) 10 s') =
    Some (word_of_nat (trial_count (unat (10 :: ulong))) + word_of_nat (trial_count (unat (10 :: ulong))))"
    by blast
  then have d: "map_option fst (case clc_prime (static_schedule 2) 10 init_globals of None \<Rightarrow> None
      | Some (r, s') \<Rightarrow> clc_prime (static_schedule 2) 10 s') = Some 8"
    unfolding t by simp
  from c have e: "map_option fst (clc_pi exact_lib (\<lambda>x n. (''3'', 1)) 1 init_globals) =
     map_option fst (clc_pi exact_lib (\<lambda>x n. (''3'', 1)) 1 (init_globals\<lparr>tpnums := 4\<rparr>))"
    by blast
  from v m a b d e show ?thesis by (simp only: simp_thms)
qed

end
